theory Spec2Isabelle
  imports Complex_Main "HOL-Library.Word" "HOL-Library.Signed_Division" "HOL-Library.Multiset"
begin

section \<open>Go values, panics and element types\<close>

text \<open>
  The repository is a Go module with two packages: \<^verbatim>\<open>util\<close> (the comparator types and
  \<^verbatim>\<open>DefaultComparator\<close>) and \<^verbatim>\<open>priorityqueue\<close> (the generic \<^verbatim>\<open>PriorityQueue[E]\<close>
  over an \<^verbatim>\<open>internalHeap[E]\<close> that implements \<^verbatim>\<open>heap.Interface\<close>).

  Go's \<^verbatim>\<open>int\<close> is a 64-bit two's complement integer (on the 64-bit platforms); comparator
  results are of this type and subtraction wraps.
\<close>

type_synonym go_int = "64 word"

text \<open>
  A panic is a value. The constructors are the panics the two packages can raise, by
  themselves or in the runtime and the \<^verbatim>\<open>reflect\<close> package: \<open>ReflectZeroValue\<close> is the call
  of \<^verbatim>\<open>reflect.Value.Interface\<close> on the zero \<^verbatim>\<open>Value\<close>, and \<open>ComparingUncomparable\<close> is the
  runtime error of \<^verbatim>\<open>==\<close> on two interface values that hold values of a type that is
  not comparable.
\<close>

datatype panic =
    IndexOutOfRange
  | NilPointerDereference
  | InterfaceConversion
  | MakesliceCapOutOfRange
  | QueueIsFull
  | NotComparableNoEquals
  | ReflectZeroValue
  | ComparingUncomparable

text \<open>
  A \<^verbatim>\<open>float64\<close> is modelled by what it denotes: not-a-number, an infinity, or a finite number
  (both zeros denote 0). The code only compares floats, and the comparison of two
  floats is the comparison of what they denote, false whenever one of them is NaN.
\<close>

datatype float64 = NaN | NegInf | Finite rat | PosInf

fun float64_less :: "float64 \<Rightarrow> float64 \<Rightarrow> bool" where
  "float64_less NaN _ = False"
| "float64_less _ NaN = False"
| "float64_less NegInf NegInf = False"
| "float64_less NegInf _ = True"
| "float64_less (Finite x) (Finite y) = (x < y)"
| "float64_less (Finite x) PosInf = True"
| "float64_less (Finite x) NegInf = False"
| "float64_less PosInf _ = False"

text \<open>
  The interface value \<^verbatim>\<open>any(v)\<close>, as far as the code inspects it: the nil interface, or a
  dynamic type together with the contents when that type is \<^verbatim>\<open>int\<close>, \<^verbatim>\<open>float64\<close> or
  \<^verbatim>\<open>string\<close>. Strings are byte sequences.
\<close>

datatype dynamic = DNil | DInt go_int | DFloat64 float64 | DString string | DOther

text \<open>
  The type parameter \<^verbatim>\<open>E\<close> is a HOL type \<open>'a\<close> together with what the Go runtime knows
  about it:
  \<^item> \<open>zero_value\<close>: the value of \<^verbatim>\<open>var zero E\<close>;
  \<^item> \<open>to_any\<close>: the conversion \<^verbatim>\<open>any(v)\<close>. For a non-interface \<^verbatim>\<open>E\<close> every value has the
    dynamic type \<^verbatim>\<open>E\<close>; for an interface type the dynamic types vary and the nil
    interface value is \<open>DNil\<close>;
  \<^item> \<open>comparable\<close>: \<^verbatim>\<open>reflect.TypeOf(v).Comparable()\<close> for a non-nil \<^verbatim>\<open>any(v)\<close>;
  \<^item> \<open>iface_eq\<close>: the comparison \<^verbatim>\<open>any(v) == any(w)\<close> of two interface values that are not
    nil. It is false when the dynamic types differ. When they are the same the values
    are compared, and the comparison panics when it reaches two values of one type
    that is not comparable. It can reach them inside a type that \<^verbatim>\<open>reflect\<close> reports as
    comparable: in a field of interface type of a struct, for instance.
\<close>

record 'a gotype =
  zero_value :: 'a
  to_any :: "'a \<Rightarrow> dynamic"
  comparable :: "'a \<Rightarrow> bool"
  iface_eq :: "'a \<Rightarrow> 'a \<Rightarrow> panic + bool"

text \<open>
  A function that mutates the heap through its pointer returns the heap as it is left,
  also when it panics: \<^verbatim>\<open>Offer\<close> recovers from a panic and goes on with that heap.
\<close>

datatype ('s, 'r) outcome = Return 's 'r | Panic 's panic

section \<open>Package util\<close>

text \<open>
  \<^verbatim>\<open>type Comparator[T any] func(o1, o2 T) int\<close> and \<^verbatim>\<open>type Equals[E any] func(a, b E) bool\<close>.
  A comparator may panic (the default one does, on a failed type assertion).
\<close>

type_synonym 'a Comparator = "'a \<Rightarrow> 'a \<Rightarrow> panic + go_int"

type_synonym 'a Equals = "'a \<Rightarrow> 'a \<Rightarrow> bool"

text \<open>
  \<^verbatim>\<open>strings.Compare\<close> of the Go standard library: the bytewise lexicographic comparison,
  with result -1, 0 or +1.
\<close>

fun strings_Compare :: "string \<Rightarrow> string \<Rightarrow> go_int" where
  "strings_Compare [] [] = 0"
| "strings_Compare [] (y # ys) = - 1"
| "strings_Compare (x # xs) [] = 1"
| "strings_Compare (x # xs) (y # ys) =
     (if (of_char x :: nat) < of_char y then - 1
      else if (of_char y :: nat) < of_char x then 1
      else strings_Compare xs ys)"

text \<open>
  \<^verbatim>\<open>DefaultComparator\<close>: a type switch on \<^verbatim>\<open>any(a)\<close>; in each of the three typed cases the
  assertion \<^verbatim>\<open>any(b).(int)\<close> (or \<^verbatim>\<open>float64\<close>, \<^verbatim>\<open>string\<close>) has no comma-ok form and panics
  when \<^verbatim>\<open>b\<close> has another dynamic type. The default case, also taken by the nil interface,
  returns 0.
\<close>

definition DefaultComparator :: "'a gotype \<Rightarrow> 'a Comparator" where
  "DefaultComparator T = (\<lambda>a b.
     case to_any T a of
       DInt aTyped \<Rightarrow>
         (case to_any T b of
            DInt bTyped \<Rightarrow> Inr (aTyped - bTyped)
          | _ \<Rightarrow> Inl InterfaceConversion)
     | DFloat64 aTyped \<Rightarrow>
         (case to_any T b of
            DFloat64 bTyped \<Rightarrow>
              Inr (if float64_less aTyped bTyped then - 1
                   else if float64_less bTyped aTyped then 1
                   else 0)
          | _ \<Rightarrow> Inl InterfaceConversion)
     | DString aTyped \<Rightarrow>
         (case to_any T b of
            DString bTyped \<Rightarrow> Inr (strings_Compare aTyped bTyped)
          | _ \<Rightarrow> Inl InterfaceConversion)
     | _ \<Rightarrow> Inr 0)"

section \<open>Package priorityqueue: the internal heap\<close>

record 'a internalHeap =
  items :: "'a list"
  comparator :: "'a Comparator"

record 'a PriorityQueue =
  heap :: "'a internalHeap"
  equals :: "'a Equals option"

text \<open>Indexing a slice panics outside \<open>0 \<le> i < len\<close>.\<close>

definition index :: "'a list \<Rightarrow> int \<Rightarrow> panic + 'a" where
  "index xs i = (if 0 \<le> i \<and> i < int (length xs) then Inr (xs ! nat i) else Inl IndexOutOfRange)"

definition Len :: "'a internalHeap \<Rightarrow> int" where
  "Len ph = int (length (items ph))"

text \<open>\<^verbatim>\<open>return ph.comparator(ph.items[i], ph.items[j]) < 0\<close>\<close>

definition Less :: "'a internalHeap \<Rightarrow> int \<Rightarrow> int \<Rightarrow> panic + bool" where
  "Less ph i j =
     (case index (items ph) i of
        Inl e \<Rightarrow> Inl e
      | Inr a \<Rightarrow>
          (case index (items ph) j of
             Inl e \<Rightarrow> Inl e
           | Inr b \<Rightarrow>
               (case comparator ph a b of
                  Inl e \<Rightarrow> Inl e
                | Inr r \<Rightarrow> Inr (r <s 0))))"

text \<open>\<^verbatim>\<open>ph.items[i], ph.items[j] = ph.items[j], ph.items[i]\<close>: both reads come first.\<close>

definition Swap :: "'a internalHeap \<Rightarrow> int \<Rightarrow> int \<Rightarrow> ('a internalHeap, unit) outcome" where
  "Swap ph i j =
     (case index (items ph) j of
        Inl e \<Rightarrow> Panic ph e
      | Inr b \<Rightarrow>
          (case index (items ph) i of
             Inl e \<Rightarrow> Panic ph e
           | Inr a \<Rightarrow> Return (ph\<lparr>items := (items ph)[nat i := b, nat j := a]\<rparr>) ()))"

text \<open>
  \<^verbatim>\<open>Push(x any)\<close>: the assertion \<^verbatim>\<open>item, ok := x.(E)\<close> fails exactly for the nil interface
  value (every other \<^verbatim>\<open>x\<close> reaching it was an \<^verbatim>\<open>E\<close>), and then nothing is appended.
\<close>

definition internalHeap_Push :: "'a gotype \<Rightarrow> 'a internalHeap \<Rightarrow> 'a \<Rightarrow> 'a internalHeap" where
  "internalHeap_Push T ph x =
     (if to_any T x = DNil then ph else ph\<lparr>items := items ph @ [x]\<rparr>)"

text \<open>\<^verbatim>\<open>Pop\<close>: \<^verbatim>\<open>item := old[n-1]\<close> panics on the empty slice; \<^verbatim>\<open>ph.items = old[0 : n-1]\<close>.\<close>

definition internalHeap_Pop :: "'a internalHeap \<Rightarrow> ('a internalHeap, 'a) outcome" where
  "internalHeap_Pop ph =
     (let old = items ph; n = int (length old) in
      case index old (n - 1) of
        Inl e \<Rightarrow> Panic ph e
      | Inr item \<Rightarrow> Return (ph\<lparr>items := take (nat (n - 1)) old\<rparr>) item)"

section \<open>The standard package container/heap\<close>

text \<open>
  The queue calls \<^verbatim>\<open>heap.Init\<close>, \<^verbatim>\<open>heap.Push\<close>, \<^verbatim>\<open>heap.Pop\<close> and \<^verbatim>\<open>heap.Remove\<close> of Go's
  standard library on its \<^verbatim>\<open>internalHeap\<close>. The library is not part of the repository;
  its functions, with their loops \<^verbatim>\<open>up\<close> and \<^verbatim>\<open>down\<close>, are written here as the library has
  them, over the methods above:
  \<^verbatim>\<open>
  func up(h Interface, j int) {
      for {
          i := (j - 1) / 2 // parent
          if i == j || !h.Less(j, i) { break }
          h.Swap(i, j)
          j = i
      }
  }
  func down(h Interface, i0, n int) bool {
      i := i0
      for {
          j1 := 2*i + 1
          if j1 >= n || j1 < 0 { break } // j1 < 0 after int overflow
          j := j1 // left child
          if j2 := j1 + 1; j2 < n && h.Less(j2, j1) { j = j2 } // right child
          if !h.Less(j, i) { break }
          h.Swap(i, j)
          i = j
      }
      return i > i0
  }
  \<close>
  Indices are mathematical integers (a slice is shorter than \<open>2 ^ 63\<close>, so the overflow
  that \<^verbatim>\<open>down\<close> tests for does not occur); the quotient \<^verbatim>\<open>(j - 1) / 2\<close> truncates towards
  zero, so that it is 0 for \<open>j = 0\<close>. A panic of \<^verbatim>\<open>Less\<close> or \<^verbatim>\<open>Swap\<close> ends the loop, with
  the heap as it is then.
\<close>

function up :: "'a internalHeap \<Rightarrow> int \<Rightarrow> ('a internalHeap, unit) outcome" where
  "up h j =
     (let i = (j - 1) sdiv 2 in
      if i = j then Return h ()
      else (case Less h j i of
              Inl e \<Rightarrow> Panic h e
            | Inr b \<Rightarrow>
                if \<not> b then Return h ()
                else (case Swap h i j of
                        Panic h' e \<Rightarrow> Panic h' e
                      | Return h' u \<Rightarrow> up h' i)))"
  by pat_completeness auto
termination
  apply (relation "measure (\<lambda>(h, j). nat j)")
   apply simp
  apply (auto simp: Less_def index_def signed_divide_int_def sgn_if split: if_splits sum.splits)
  done

function down_loop :: "'a internalHeap \<Rightarrow> int \<Rightarrow> int \<Rightarrow> ('a internalHeap, int) outcome" where
  "down_loop h i n =
     (let j1 = 2 * i + 1 in
      if j1 \<ge> n \<or> j1 < 0 then Return h i
      else (let j2 = j1 + 1 in
            case (if j2 < n then Less h j2 j1 else Inr False) of
              Inl e \<Rightarrow> Panic h e
            | Inr b \<Rightarrow>
                (let j = (if b then j2 else j1) in
                 case Less h j i of
                   Inl e \<Rightarrow> Panic h e
                 | Inr c \<Rightarrow>
                     if \<not> c then Return h i
                     else (case Swap h i j of
                             Panic h' e \<Rightarrow> Panic h' e
                           | Return h' u \<Rightarrow> down_loop h' j n))))"
  by pat_completeness auto
termination
  apply (relation "measure (\<lambda>(h, i, n). nat (n - i))")
   apply simp
  apply (auto simp: Less_def index_def split: if_splits sum.splits)
  done

declare up.simps [simp del] down_loop.simps [simp del]

definition down :: "'a internalHeap \<Rightarrow> int \<Rightarrow> int \<Rightarrow> ('a internalHeap, bool) outcome" where
  "down h i0 n =
     (case down_loop h i0 n of
        Panic h' e \<Rightarrow> Panic h' e
      | Return h' i \<Rightarrow> Return h' (i > i0))"

text \<open>\<^verbatim>\<open>Init\<close>: \<^verbatim>\<open>n := h.Len(); for i := n/2 - 1; i >= 0; i-- { down(h, i, n) }\<close>\<close>

function Init_loop :: "'a internalHeap \<Rightarrow> int \<Rightarrow> int \<Rightarrow> ('a internalHeap, unit) outcome" where
  "Init_loop h i n =
     (if i \<ge> 0
      then (case down h i n of
              Panic h' e \<Rightarrow> Panic h' e
            | Return h' moved \<Rightarrow> Init_loop h' (i - 1) n)
      else Return h ())"
  by pat_completeness auto
termination
  by (relation "measure (\<lambda>(h, i, n). nat (i + 1))") auto

declare Init_loop.simps [simp del]

definition heap_Init :: "'a internalHeap \<Rightarrow> ('a internalHeap, unit) outcome" where
  "heap_Init h = (let n = Len h in Init_loop h (n sdiv 2 - 1) n)"

text \<open>\<^verbatim>\<open>Push\<close>: \<^verbatim>\<open>h.Push(x); up(h, h.Len()-1)\<close>\<close>

definition heap_Push :: "'a gotype \<Rightarrow> 'a internalHeap \<Rightarrow> 'a \<Rightarrow> ('a internalHeap, unit) outcome" where
  "heap_Push T h x = (let h1 = internalHeap_Push T h x in up h1 (Len h1 - 1))"

text \<open>\<^verbatim>\<open>Pop\<close>: \<^verbatim>\<open>n := h.Len() - 1; h.Swap(0, n); down(h, 0, n); return h.Pop()\<close>\<close>

definition heap_Pop :: "'a internalHeap \<Rightarrow> ('a internalHeap, 'a) outcome" where
  "heap_Pop h =
     (let n = Len h - 1 in
      case Swap h 0 n of
        Panic h' e \<Rightarrow> Panic h' e
      | Return h1 u \<Rightarrow>
          (case down h1 0 n of
             Panic h' e \<Rightarrow> Panic h' e
           | Return h2 moved \<Rightarrow> internalHeap_Pop h2))"

text \<open>
  \<^verbatim>\<open>Remove\<close>: \<^verbatim>\<open>n := h.Len() - 1; if n != i { h.Swap(i, n); if !down(h, i, n) { up(h, i) } };
  return h.Pop()\<close>
\<close>

definition heap_Remove :: "'a internalHeap \<Rightarrow> int \<Rightarrow> ('a internalHeap, 'a) outcome" where
  "heap_Remove h i =
     (let n = Len h - 1 in
      case (if n \<noteq> i
            then (case Swap h i n of
                    Panic h' e \<Rightarrow> Panic h' e
                  | Return h1 u \<Rightarrow>
                      (case down h1 i n of
                         Panic h' e \<Rightarrow> Panic h' e
                       | Return h2 moved \<Rightarrow> if \<not> moved then up h2 i else Return h2 ()))
            else Return h ()) of
        Panic h' e \<Rightarrow> Panic h' e
      | Return h3 u \<Rightarrow> internalHeap_Pop h3)"

section \<open>Package priorityqueue: the queue\<close>

text \<open>
  The options of \<^verbatim>\<open>New\<close>. \<^verbatim>\<open>WithCapacity\<close> replaces the (empty) slice by
  \<^verbatim>\<open>make([]E, 0, initialCapacity)\<close>, which panics for a negative capacity; the capacity of a
  slice is not observable through the queue and is not part of the state. Running out of
  memory is not modelled (nor is the panic of \<^verbatim>\<open>make\<close> for a capacity beyond what can be
  allocated, a bound that depends on the size of an element), and the functions passed
  to \<^verbatim>\<open>WithComparator\<close> and \<^verbatim>\<open>WithEquals\<close> are not nil. An equality function returns for every
  pair; an ordering function may panic.
\<close>

datatype 'a PQOption =
    WithCapacity go_int
  | WithComparator "'a Comparator"
  | WithEquals "'a Equals"

fun apply_option :: "'a PQOption \<Rightarrow> 'a PriorityQueue \<Rightarrow> panic + 'a PriorityQueue" where
  "apply_option (WithCapacity initialCapacity) pq =
     (if initialCapacity <s 0 then Inl MakesliceCapOutOfRange
      else Inr (pq\<lparr>heap := (heap pq)\<lparr>items := []\<rparr>\<rparr>))"
| "apply_option (WithComparator c) pq = Inr (pq\<lparr>heap := (heap pq)\<lparr>comparator := c\<rparr>\<rparr>)"
| "apply_option (WithEquals eq) pq = Inr (pq\<lparr>equals := Some eq\<rparr>)"

fun apply_options :: "'a PQOption list \<Rightarrow> 'a PriorityQueue \<Rightarrow> panic + 'a PriorityQueue" where
  "apply_options [] pq = Inr pq"
| "apply_options (opt # opts) pq =
     (case apply_option opt pq of
        Inl e \<Rightarrow> Inl e
      | Inr pq' \<Rightarrow> apply_options opts pq')"

definition New :: "'a gotype \<Rightarrow> 'a PQOption list \<Rightarrow> panic + 'a PriorityQueue" where
  "New T opts =
     (case apply_options opts
             \<lparr>heap = \<lparr>items = [], comparator = DefaultComparator T\<rparr>, equals = None\<rparr> of
        Inl e \<Rightarrow> Inl e
      | Inr pq \<Rightarrow>
          (case heap_Init (heap pq) of
             Panic h e \<Rightarrow> Inl e
           | Return h u \<Rightarrow> Inr (pq\<lparr>heap := h\<rparr>)))"

text \<open>
  \<^verbatim>\<open>Offer\<close>: the deferred function turns a panic of \<^verbatim>\<open>heap.Push\<close> into the result false; the
  heap stays as the panic left it.
\<close>

definition Offer :: "'a gotype \<Rightarrow> 'a PriorityQueue \<Rightarrow> 'a \<Rightarrow> 'a PriorityQueue \<times> bool" where
  "Offer T pq item =
     (case heap_Push T (heap pq) item of
        Panic h e \<Rightarrow> (pq\<lparr>heap := h\<rparr>, False)
      | Return h u \<Rightarrow> (pq\<lparr>heap := h\<rparr>, True))"

definition Add :: "'a gotype \<Rightarrow> 'a PriorityQueue \<Rightarrow> 'a \<Rightarrow> ('a PriorityQueue, bool) outcome" where
  "Add T pq item =
     (case Offer T pq item of
        (pq', success) \<Rightarrow> if \<not> success then Panic pq' QueueIsFull else Return pq' True)"

definition Clear :: "'a PriorityQueue \<Rightarrow> ('a PriorityQueue, unit) outcome" where
  "Clear pq =
     (case heap_Init ((heap pq)\<lparr>items := []\<rparr>) of
        Panic h e \<Rightarrow> Panic (pq\<lparr>heap := h\<rparr>) e
      | Return h u \<Rightarrow> Return (pq\<lparr>heap := h\<rparr>) ())"

definition Comparator :: "'a PriorityQueue \<Rightarrow> 'a Comparator" where
  "Comparator pq = comparator (heap pq)"

text \<open>
  \<^verbatim>\<open>reflect.TypeOf(item).Comparable()\<close>: \<^verbatim>\<open>TypeOf\<close> of the nil interface is the nil
  \<^verbatim>\<open>Type\<close>, and the method call on it panics.
\<close>

definition reflect_Comparable :: "'a gotype \<Rightarrow> 'a \<Rightarrow> panic + bool" where
  "reflect_Comparable T item =
     (if to_any T item = DNil then Inl NilPointerDereference else Inr (comparable T item))"

text \<open>
  The test \<^verbatim>\<open>reflect.ValueOf(v).Interface() == reflect.ValueOf(item).Interface()\<close> of the
  loops of \<^verbatim>\<open>Contains\<close> and \<^verbatim>\<open>Remove\<close>: \<^verbatim>\<open>ValueOf\<close> of the nil interface is the zero \<^verbatim>\<open>Value\<close>,
  on which \<^verbatim>\<open>Interface\<close> panics; otherwise \<^verbatim>\<open>Interface\<close> gives the interface value back,
  and \<^verbatim>\<open>==\<close> compares the two interface values.
\<close>

definition reflect_eq :: "'a gotype \<Rightarrow> 'a \<Rightarrow> 'a \<Rightarrow> panic + bool" where
  "reflect_eq T v item =
     (if to_any T v = DNil \<or> to_any T item = DNil then Inl ReflectZeroValue
      else iface_eq T v item)"

text \<open>
  The two loops over \<^verbatim>\<open>pq.heap.items\<close>, each leaving at the first match, or with the
  panic of a comparison.
\<close>

fun contains_loop :: "('a \<Rightarrow> panic + bool) \<Rightarrow> 'a list \<Rightarrow> panic + bool" where
  "contains_loop matches [] = Inr False"
| "contains_loop matches (v # vs) =
     (case matches v of
        Inl e \<Rightarrow> Inl e
      | Inr b \<Rightarrow> if b then Inr True else contains_loop matches vs)"

fun first_match :: "('a \<Rightarrow> panic + bool) \<Rightarrow> 'a list \<Rightarrow> int \<Rightarrow> panic + int option" where
  "first_match matches [] i = Inr None"
| "first_match matches (v # vs) i =
     (case matches v of
        Inl e \<Rightarrow> Inl e
      | Inr b \<Rightarrow> if b then Inr (Some i) else first_match matches vs (i + 1))"

definition remove_loop :: "('a \<Rightarrow> panic + bool) \<Rightarrow> 'a PriorityQueue \<Rightarrow> ('a PriorityQueue, bool) outcome" where
  "remove_loop matches pq =
     (case first_match matches (items (heap pq)) 0 of
        Inl e \<Rightarrow> Panic pq e
      | Inr None \<Rightarrow> Return pq False
      | Inr (Some i) \<Rightarrow>
          (case heap_Remove (heap pq) i of
             Panic h e \<Rightarrow> Panic (pq\<lparr>heap := h\<rparr>) e
           | Return h item \<Rightarrow> Return (pq\<lparr>heap := h\<rparr>) True))"

definition Contains :: "'a gotype \<Rightarrow> 'a PriorityQueue \<Rightarrow> 'a \<Rightarrow> panic + bool" where
  "Contains T pq item =
     (case reflect_Comparable T item of
        Inl e \<Rightarrow> Inl e
      | Inr c \<Rightarrow>
          if c then contains_loop (\<lambda>v. reflect_eq T v item) (items (heap pq))
          else (case equals pq of
                  None \<Rightarrow> Inl NotComparableNoEquals
                | Some eq \<Rightarrow> contains_loop (\<lambda>v. Inr (eq v item)) (items (heap pq))))"

definition Remove :: "'a gotype \<Rightarrow> 'a PriorityQueue \<Rightarrow> 'a \<Rightarrow> ('a PriorityQueue, bool) outcome" where
  "Remove T pq item =
     (case reflect_Comparable T item of
        Inl e \<Rightarrow> Panic pq e
      | Inr c \<Rightarrow>
          if c then remove_loop (\<lambda>v. reflect_eq T v item) pq
          else (case equals pq of
                  None \<Rightarrow> Panic pq NotComparableNoEquals
                | Some eq \<Rightarrow> remove_loop (\<lambda>v. Inr (eq v item)) pq))"

text \<open>
  \<^verbatim>\<open>Poll\<close>: \<^verbatim>\<open>item := heap.Pop(pq.heap); if item == nil { var zero E; return zero };
  return item.(E)\<close>. Nothing guards the call of \<^verbatim>\<open>heap.Pop\<close>.
\<close>

definition Poll :: "'a gotype \<Rightarrow> 'a PriorityQueue \<Rightarrow> ('a PriorityQueue, 'a) outcome" where
  "Poll T pq =
     (case heap_Pop (heap pq) of
        Panic h e \<Rightarrow> Panic (pq\<lparr>heap := h\<rparr>) e
      | Return h item \<Rightarrow>
          if to_any T item = DNil then Return (pq\<lparr>heap := h\<rparr>) (zero_value T)
          else Return (pq\<lparr>heap := h\<rparr>) item)"

text \<open>
  \<^verbatim>\<open>Peek\<close>: \<^verbatim>\<open>if pq.heap.Len() == 0 { var zero E; return zero }; return pq.heap.items[0]\<close>.
  The method has the queue by pointer, as \<^verbatim>\<open>Poll\<close> has; it returns the queue as it leaves
  it, together with the element.
\<close>

definition Peek :: "'a gotype \<Rightarrow> 'a PriorityQueue \<Rightarrow> 'a PriorityQueue \<times> 'a" where
  "Peek T pq = (if Len (heap pq) = 0 then (pq, zero_value T) else (pq, items (heap pq) ! 0))"

definition Size :: "'a PriorityQueue \<Rightarrow> int" where
  "Size pq = int (length (items (heap pq)))"

section \<open>Package priorityqueue: ToArray and the storage of the queue\<close>

text \<open>
  \<^verbatim>\<open>ToArray\<close> returns \<^verbatim>\<open>append([]E(nil), pq.heap.items...)\<close>, and the claim about it is about
  sharing, so slices are modelled here as Go has them: a slice is a view of an array
  in the store (the array's address, a length and a capacity; the nil slice has no
  array). The slices of the queue and of \<^verbatim>\<open>ToArray\<close> start at the beginning of their
  array. \<open>view\<close> reads the elements of a slice from the store.

  \<^verbatim>\<open>append\<close> to the nil slice: nothing to append gives the nil slice back; otherwise the
  capacity 0 does not suffice and a new array is allocated, with the elements copied
  into it. The runtime may round the capacity up; \<open>spare\<close> is the number of cells
  beyond the length, holding zero values.
\<close>

type_synonym addr = nat

record slice =
  base :: "addr option"
  len :: nat
  cap :: nat

record 'a store =
  cells :: "addr \<Rightarrow> 'a list"
  next_free :: addr

definition view :: "'a store \<Rightarrow> slice \<Rightarrow> 'a list" where
  "view st s = (case base s of None \<Rightarrow> [] | Some a \<Rightarrow> take (len s) (cells st a))"

definition append_to_nil :: "'a gotype \<Rightarrow> nat \<Rightarrow> 'a store \<Rightarrow> 'a list \<Rightarrow> 'a store \<times> slice" where
  "append_to_nil T spare st xs =
     (if xs = [] then (st, \<lparr>base = None, len = 0, cap = 0\<rparr>)
      else (st\<lparr>cells := (cells st)(next_free st := xs @ replicate spare (zero_value T)),
               next_free := next_free st + 1\<rparr>,
            \<lparr>base = Some (next_free st), len = length xs, cap = length xs + spare\<rparr>))"

text \<open>
  The queue in the store: its \<^verbatim>\<open>items\<close> field is a slice. \<open>load\<close> is the queue as the
  other sections have it, with the elements read from the store; every method of the
  queue reads and writes the store through its \<^verbatim>\<open>items\<close> slice only.
\<close>

record 'a stored_queue =
  items_slice :: slice
  ordering :: "'a Comparator"
  equality :: "'a Equals option"

definition load :: "'a store \<Rightarrow> 'a stored_queue \<Rightarrow> 'a PriorityQueue" where
  "load st q =
     \<lparr>heap = \<lparr>items = view st (items_slice q), comparator = ordering q\<rparr>, equals = equality q\<rparr>"

definition ToArray ::
  "'a gotype \<Rightarrow> nat \<Rightarrow> 'a store \<Rightarrow> 'a stored_queue \<Rightarrow> 'a store \<times> slice" where
  "ToArray T spare st q = append_to_nil T spare st (view st (items_slice q))"

text \<open>
  What a client can do to the returned slice \<open>s\<close>: store a value into a cell of its
  array (by \<^verbatim>\<open>s[i] = v\<close>, through a reslice of it, or by an \<^verbatim>\<open>append\<close> within its
  capacity). A store outside the array panics and changes nothing.
\<close>

definition store_elem :: "'a store \<Rightarrow> slice \<Rightarrow> nat \<Rightarrow> 'a \<Rightarrow> 'a store" where
  "store_elem st s i v =
     (case base s of
        None \<Rightarrow> st
      | Some a \<Rightarrow> st\<lparr>cells := (cells st)(a := (cells st a)[i := v])\<rparr>)"

text \<open>A slice of the store lies in an allocated array, within its capacity.\<close>

definition allocated :: "'a store \<Rightarrow> slice \<Rightarrow> bool" where
  "allocated st s =
     (case base s of
        None \<Rightarrow> len s = 0
      | Some a \<Rightarrow> a < next_free st \<and> len s \<le> length (cells st a))"

section \<open>Clients of the queue\<close>

text \<open>
  A client calls the operations one after another on one queue. A call returns a
  boolean or an element, or it panics; the client that recovers from the panic goes on
  with the queue as the panic left it.
\<close>

datatype 'a operation = OpAdd 'a | OpOffer 'a | OpPoll | OpRemove 'a

datatype 'a reply = Flag bool | Element 'a | Panicked panic

fun exec :: "'a gotype \<Rightarrow> 'a operation \<Rightarrow> 'a PriorityQueue \<Rightarrow> 'a PriorityQueue \<times> 'a reply" where
  "exec T (OpAdd x) pq =
     (case Add T pq x of Return pq' b \<Rightarrow> (pq', Flag b) | Panic pq' e \<Rightarrow> (pq', Panicked e))"
| "exec T (OpOffer x) pq = (case Offer T pq x of (pq', b) \<Rightarrow> (pq', Flag b))"
| "exec T OpPoll pq =
     (case Poll T pq of Return pq' x \<Rightarrow> (pq', Element x) | Panic pq' e \<Rightarrow> (pq', Panicked e))"
| "exec T (OpRemove x) pq =
     (case Remove T pq x of Return pq' b \<Rightarrow> (pq', Flag b) | Panic pq' e \<Rightarrow> (pq', Panicked e))"

fun run :: "'a gotype \<Rightarrow> 'a operation list \<Rightarrow> 'a PriorityQueue \<Rightarrow> 'a PriorityQueue \<times> 'a reply list" where
  "run T [] pq = (pq, [])"
| "run T (op # ops) pq =
     (case exec T op pq of
        (pq', r) \<Rightarrow> (case run T ops pq' of (pq'', rs) \<Rightarrow> (pq'', r # rs)))"

text \<open>
  The client's loop \<^verbatim>\<open>for pq.Size() > 0 { out = append(out, pq.Poll()) }\<close>, with fuel:
  the result is \<open>None\<close> when the fuel runs out before the queue is empty.
\<close>

fun poll_until_empty ::
  "nat \<Rightarrow> 'a gotype \<Rightarrow> 'a PriorityQueue \<Rightarrow> ('a PriorityQueue, 'a list) outcome option" where
  "poll_until_empty 0 T pq = (if Size pq > 0 then None else Some (Return pq []))"
| "poll_until_empty (Suc fuel) T pq =
     (if Size pq > 0
      then (case Poll T pq of
              Panic pq' e \<Rightarrow> Some (Panic pq' e)
            | Return pq' x \<Rightarrow>
                (case poll_until_empty fuel T pq' of
                   None \<Rightarrow> None
                 | Some (Panic pq'' e) \<Rightarrow> Some (Panic pq'' e)
                 | Some (Return pq'' xs) \<Rightarrow> Some (Return pq'' (x # xs))))
      else Some (Return pq []))"

section \<open>Notions of the specification\<close>

text \<open>
  The three-way result of the ordering function: \<open>lt\<close> is \<^verbatim>\<open>compare(a, b) < 0\<close>, \<open>gt\<close> is
  \<^verbatim>\<open>compare(a, b) > 0\<close> and \<open>leq\<close> is \<^verbatim>\<open>compare(a, b) <= 0\<close>; none of them holds when
  the function panics. A valid ordering returns for every pair, is consistent (\<open>a\<close> is
  before \<open>b\<close> exactly when \<open>b\<close> is after \<open>a\<close>), transitive, and its ties are transitive:
  a strict weak ordering. The heap property is the one of the specification, over the
  children \<open>2 i + 1\<close> and \<open>2 i + 2\<close>.
\<close>

definition never_panics :: "'a Comparator \<Rightarrow> bool" where
  "never_panics cmp = (\<forall>a b. \<exists>r. cmp a b = Inr r)"

definition lt :: "'a Comparator \<Rightarrow> 'a \<Rightarrow> 'a \<Rightarrow> bool" where
  "lt cmp a b = (case cmp a b of Inl e \<Rightarrow> False | Inr r \<Rightarrow> r <s 0)"

definition gt :: "'a Comparator \<Rightarrow> 'a \<Rightarrow> 'a \<Rightarrow> bool" where
  "gt cmp a b = (case cmp a b of Inl e \<Rightarrow> False | Inr r \<Rightarrow> 0 <s r)"

definition leq :: "'a Comparator \<Rightarrow> 'a \<Rightarrow> 'a \<Rightarrow> bool" where
  "leq cmp a b = (case cmp a b of Inl e \<Rightarrow> False | Inr r \<Rightarrow> r \<le>s 0)"

definition valid_ordering :: "'a Comparator \<Rightarrow> bool" where
  "valid_ordering cmp =
     (never_panics cmp \<and>
      (\<forall>a b. lt cmp a b \<longleftrightarrow> gt cmp b a) \<and>
      (\<forall>a b c. lt cmp a b \<and> lt cmp b c \<longrightarrow> lt cmp a c) \<and>
      (\<forall>a b c. \<not> lt cmp a b \<and> \<not> lt cmp b a \<and> \<not> lt cmp b c \<and> \<not> lt cmp c b \<longrightarrow> \<not> lt cmp a c))"

definition heap_property :: "'a Comparator \<Rightarrow> 'a list \<Rightarrow> bool" where
  "heap_property cmp xs =
     (\<forall>i < length xs.
        (2 * i + 1 < length xs \<longrightarrow> leq cmp (xs ! i) (xs ! (2 * i + 1))) \<and>
        (2 * i + 2 < length xs \<longrightarrow> leq cmp (xs ! i) (xs ! (2 * i + 2))))"

text \<open>
  What an operation that returned \<open>r\<close> should have added to the size: a successful
  insertion one, a poll or a successful removal minus one.
\<close>

fun net_change :: "'a operation \<Rightarrow> 'a reply \<Rightarrow> int" where
  "net_change (OpAdd x) (Flag True) = 1"
| "net_change (OpOffer x) (Flag True) = 1"
| "net_change OpPoll (Element x) = - 1"
| "net_change (OpRemove x) (Flag True) = - 1"
| "net_change op r = 0"

text \<open>
  The operations that insert the nil interface value.
\<close>

fun inserts_nil :: "'a gotype \<Rightarrow> 'a operation \<Rightarrow> bool" where
  "inserts_nil T (OpAdd x) = (to_any T x = DNil)"
| "inserts_nil T (OpOffer x) = (to_any T x = DNil)"
| "inserts_nil T op = False"

text \<open>
  The sign of a difference, the order of bytes, and the options that set an ordering
  function.
\<close>

definition sign :: "rat \<Rightarrow> go_int" where
  "sign d = (if d < 0 then - 1 else if 0 < d then 1 else 0)"

definition byte_less :: "(char \<times> char) set" where
  "byte_less = {(c, d). (of_char c :: nat) < of_char d}"

fun is_WithComparator :: "'a PQOption \<Rightarrow> bool" where
  "is_WithComparator (WithComparator c) = True"
| "is_WithComparator opt = False"

section \<open>Element types and an ordering for the examples\<close>

text \<open>
  Four element types.
  \<^item> \<^verbatim>\<open>int\<close>.
  \<^item> The interface type \<^verbatim>\<open>any\<close>, holding nil, ints, floats, strings and values of one
    further type that is not comparable (the slice type \<^verbatim>\<open>[]int\<close>, say). \<open>interface_eq\<close> is
    \<^verbatim>\<open>==\<close> on two such interface values: false for different dynamic types, the
    comparison of the values for the same dynamic type, where NaN differs from itself,
    and the panic for two values of the type that is not comparable.
  \<^item> The slice type \<^verbatim>\<open>[]int\<close>, which is not comparable and whose zero value is the nil
    slice.
  \<^item> The struct type \<^verbatim>\<open>struct{ V any }\<close>. It is comparable for \<^verbatim>\<open>reflect\<close>, as every struct
    whose field types are comparable is, and \<^verbatim>\<open>==\<close> on two of its values compares
    their fields \<^verbatim>\<open>V\<close>, two interface values.

  And an ordering function a caller may pass to \<^verbatim>\<open>WithComparator\<close>: the comparison of two
  ints, without subtraction.
\<close>

fun interface_eq :: "dynamic \<Rightarrow> dynamic \<Rightarrow> panic + bool" where
  "interface_eq DNil DNil = Inr True"
| "interface_eq (DInt a) (DInt b) = Inr (a = b)"
| "interface_eq (DFloat64 a) (DFloat64 b) = Inr (a = b \<and> a \<noteq> NaN)"
| "interface_eq (DString a) (DString b) = Inr (a = b)"
| "interface_eq DOther DOther = Inl ComparingUncomparable"
| "interface_eq a b = Inr False"

datatype boxed = Boxed dynamic

fun boxed_eq :: "boxed \<Rightarrow> boxed \<Rightarrow> panic + bool" where
  "boxed_eq (Boxed a) (Boxed b) = interface_eq a b"

definition int_type :: "go_int gotype" where
  "int_type = \<lparr>zero_value = 0, to_any = DInt, comparable = (\<lambda>v. True),
      iface_eq = (\<lambda>v w. Inr (v = w))\<rparr>"

definition any_type :: "dynamic gotype" where
  "any_type = \<lparr>zero_value = DNil, to_any = (\<lambda>v. v), comparable = (\<lambda>v. v \<noteq> DOther),
      iface_eq = interface_eq\<rparr>"

definition slice_type :: "go_int list gotype" where
  "slice_type = \<lparr>zero_value = [], to_any = (\<lambda>v. DOther), comparable = (\<lambda>v. False),
      iface_eq = (\<lambda>v w. Inl ComparingUncomparable)\<rparr>"

definition boxed_type :: "boxed gotype" where
  "boxed_type = \<lparr>zero_value = Boxed DNil, to_any = (\<lambda>v. DOther), comparable = (\<lambda>v. True),
      iface_eq = boxed_eq\<rparr>"

definition compare_ints :: "go_int Comparator" where
  "compare_ints a b = Inr (if a <s b then - 1 else if b <s a then 1 else 0)"

section \<open>Heap order on a slice\<close>

text \<open>
  The proofs below read a slice at an integer index and speak about the heap order of
  its first \<open>n\<close> elements: \<open>heap_upto\<close> is the order between every element and its parent
  \<open>(c - 1) div 2\<close>; \<open>heap_except\<close> is the same with the element at \<open>k\<close> left out (its parent
  and its children are ordered with each other instead); \<open>children_ok\<close> and \<open>parent_ok\<close>
  are the two parts that \<open>heap_except\<close> leaves out.
\<close>

definition item_at :: "'a list \<Rightarrow> int \<Rightarrow> 'a" where
  "item_at xs i = xs ! nat i"

definition swapped :: "'a list \<Rightarrow> int \<Rightarrow> int \<Rightarrow> 'a list" where
  "swapped xs i j = xs[nat i := xs ! nat j, nat j := xs ! nat i]"

definition heap_upto :: "('a \<Rightarrow> 'a \<Rightarrow> bool) \<Rightarrow> 'a list \<Rightarrow> int \<Rightarrow> bool" where
  "heap_upto R xs n = (\<forall>c. 1 \<le> c \<and> c < n \<longrightarrow> R (item_at xs ((c - 1) div 2)) (item_at xs c))"

definition heap_except :: "('a \<Rightarrow> 'a \<Rightarrow> bool) \<Rightarrow> 'a list \<Rightarrow> int \<Rightarrow> int \<Rightarrow> bool" where
  "heap_except R xs n k =
     (\<forall>c. 1 \<le> c \<and> c < n \<longrightarrow>
        (c \<noteq> k \<and> (c - 1) div 2 \<noteq> k \<longrightarrow> R (item_at xs ((c - 1) div 2)) (item_at xs c)) \<and>
        ((c - 1) div 2 = k \<and> 1 \<le> k \<longrightarrow> R (item_at xs ((k - 1) div 2)) (item_at xs c)))"

definition children_ok :: "('a \<Rightarrow> 'a \<Rightarrow> bool) \<Rightarrow> 'a list \<Rightarrow> int \<Rightarrow> int \<Rightarrow> bool" where
  "children_ok R xs n k = (\<forall>c. 1 \<le> c \<and> c < n \<and> (c - 1) div 2 = k \<longrightarrow> R (item_at xs k) (item_at xs c))"

definition parent_ok :: "('a \<Rightarrow> 'a \<Rightarrow> bool) \<Rightarrow> 'a list \<Rightarrow> int \<Rightarrow> bool" where
  "parent_ok R xs k = (1 \<le> k \<longrightarrow> R (item_at xs ((k - 1) div 2)) (item_at xs k))"

text \<open>
  What \<^verbatim>\<open>up\<close> and \<^verbatim>\<open>down\<close> establish between a parent \<open>a\<close> and its child \<open>b\<close> is that
  \<^verbatim>\<open>Less(b, a)\<close> is false: \<open>not_after\<close>. They need an ordering function that returns, whose
  \<open>lt\<close> is asymmetric and whose \<open>not_after\<close> is transitive: \<open>heap_order\<close>, which every valid
  ordering has. \<open>down_post\<close> is what the loop of \<^verbatim>\<open>down\<close> from \<open>k\<close> achieves when it ends
  at \<open>m\<close>; \<open>queue_ok\<close> is the invariant of the queue, and \<open>no_nil\<close> says that no element is
  the nil interface value.
\<close>

definition not_after :: "'a Comparator \<Rightarrow> 'a \<Rightarrow> 'a \<Rightarrow> bool" where
  "not_after cmp a b = (\<not> lt cmp b a)"

definition heap_order :: "'a Comparator \<Rightarrow> bool" where
  "heap_order cmp =
     (never_panics cmp \<and>
      (\<forall>a b. lt cmp a b \<longrightarrow> \<not> lt cmp b a) \<and>
      (\<forall>a b c. not_after cmp a b \<and> not_after cmp b c \<longrightarrow> not_after cmp a c))"

definition down_post ::
  "('a \<Rightarrow> 'a \<Rightarrow> bool) \<Rightarrow> 'a internalHeap \<Rightarrow> int \<Rightarrow> int \<Rightarrow> 'a internalHeap \<Rightarrow> int \<Rightarrow> bool" where
  "down_post R h k n h' m =
     (comparator h' = comparator h \<and> length (items h') = length (items h) \<and>
      mset (items h') = mset (items h) \<and> k \<le> m \<and> (m = k \<longrightarrow> h' = h) \<and>
      heap_except R (items h') n m \<and> children_ok R (items h') n m \<and>
      (k < m \<or> parent_ok R (items h) k \<longrightarrow> parent_ok R (items h') m) \<and>
      (\<forall>c. n \<le> c \<longrightarrow> item_at (items h') c = item_at (items h) c))"

definition queue_ok :: "'a Comparator \<Rightarrow> 'a PriorityQueue \<Rightarrow> bool" where
  "queue_ok cmp pq =
     (comparator (heap pq) = cmp \<and>
      heap_upto (not_after cmp) (items (heap pq)) (int (length (items (heap pq)))))"

definition no_nil :: "'a gotype \<Rightarrow> 'a PriorityQueue \<Rightarrow> bool" where
  "no_nil T pq = (\<forall>v \<in> set (items (heap pq)). to_any T v \<noteq> DNil)"

section \<open>Lemmas\<close>

subsection \<open>Swapping two elements of a slice\<close>

lemma item_at_swapped:
  assumes "0 \<le> i" "i < int (length xs)" "0 \<le> j" "j < int (length xs)" "0 \<le> c"
  shows "item_at (swapped xs i j) c = (if c = j then item_at xs i else if c = i then item_at xs j else item_at xs c)"
  using assms by (auto simp: item_at_def swapped_def nth_list_update nat_eq_iff)

lemma length_swapped: "length (swapped xs i j) = length xs"
  by (simp add: swapped_def)

lemma mset_swapped:
  assumes "0 \<le> i" "i < int (length xs)" "0 \<le> j" "j < int (length xs)"
  shows "mset (swapped xs i j) = mset xs"
  using assms unfolding swapped_def by (simp add: mset_swap)

lemma heap_upto_iff:
  "heap_except R xs n k \<Longrightarrow> children_ok R xs n k \<Longrightarrow> parent_ok R xs k \<Longrightarrow> heap_upto R xs n"
  unfolding heap_upto_def heap_except_def children_ok_def parent_ok_def
  by metis

lemma heap_upto_except:
  assumes tr: "\<And>a b c. R a b \<Longrightarrow> R b c \<Longrightarrow> R a c"
    and h: "heap_upto R xs n" and k: "k < n"
  shows "heap_except R xs n k"
  unfolding heap_except_def
proof (intro allI impI conjI)
  fix c assume c: "1 \<le> c \<and> c < n"
  { assume "c \<noteq> k \<and> (c - 1) div 2 \<noteq> k"
    show "R (item_at xs ((c - 1) div 2)) (item_at xs c)" using h c by (simp add: heap_upto_def) }
  { assume a: "(c - 1) div 2 = k \<and> 1 \<le> k"
    have "R (item_at xs ((k - 1) div 2)) (item_at xs k)" using h a k by (simp add: heap_upto_def)
    moreover have "R (item_at xs k) (item_at xs c)" using h c a by (auto simp add: heap_upto_def)
    ultimately show "R (item_at xs ((k - 1) div 2)) (item_at xs c)" by (rule tr) }
qed

lemma swap_down_step:
  assumes he: "heap_except R xs n k"
    and k: "0 \<le> k" and j: "j < n" "(j - 1) div 2 = k" "1 \<le> j" and n: "n \<le> int (length xs)"
    and minc: "\<And>s. 1 \<le> s \<Longrightarrow> s < n \<Longrightarrow> (s - 1) div 2 = k \<Longrightarrow> R (item_at xs j) (item_at xs s)"
    and jk: "R (item_at xs j) (item_at xs k)"
  shows "heap_except R (swapped xs k j) n j \<and> parent_ok R (swapped xs k j) j"
proof -
  have kj: "k < j" using j k by linarith
  have sw: "\<And>c. 0 \<le> c \<Longrightarrow> item_at (swapped xs k j) c = (if c = j then item_at xs k else if c = k then item_at xs j else item_at xs c)"
    using item_at_swapped[of k xs j] k j n kj by simp
  have p: "parent_ok R (swapped xs k j) j"
    unfolding parent_ok_def using sw jk j k kj by simp
  have "heap_except R (swapped xs k j) n j"
    unfolding heap_except_def
  proof (intro allI impI conjI)
    fix c assume c: "1 \<le> c \<and> c < n"
    then have pc: "0 \<le> (c - 1) div 2" "(c - 1) div 2 < c" by linarith+
    { assume a: "c \<noteq> j \<and> (c - 1) div 2 \<noteq> j"
      show "R (item_at (swapped xs k j) ((c - 1) div 2)) (item_at (swapped xs k j) c)"
      proof (cases "c = k")
        case True
        then have "1 \<le> k" using c by simp
        then have "R (item_at xs ((k - 1) div 2)) (item_at xs j)"
          using he j unfolding heap_except_def by blast
        moreover have "(k - 1) div 2 \<noteq> k" "(k - 1) div 2 \<noteq> j" using pc True kj by linarith+
        ultimately show ?thesis using True sw pc c kj by simp
      next
        case ck: False
        show ?thesis
        proof (cases "(c - 1) div 2 = k")
          case True
          then have "R (item_at xs j) (item_at xs c)" using minc c by blast
          then show ?thesis using True sw c ck a k by simp
        next
          case False
          then have "R (item_at xs ((c - 1) div 2)) (item_at xs c)"
            using he c ck unfolding heap_except_def by blast
          then show ?thesis using False sw c ck a pc by simp
        qed
      qed }
    { assume a: "(c - 1) div 2 = j \<and> 1 \<le> j"
      then have "c \<noteq> k" "c \<noteq> j" using kj c by linarith+
      moreover have "R (item_at xs j) (item_at xs c)"
        using he c a kj \<open>c \<noteq> k\<close> unfolding heap_except_def by (metis less_irrefl)
      ultimately show "R (item_at (swapped xs k j) ((j - 1) div 2)) (item_at (swapped xs k j) c)"
        using sw j k c by simp }
  qed
  with p show ?thesis by simp
qed

lemma swap_up_step:
  assumes tr: "\<And>a b c. R a b \<Longrightarrow> R b c \<Longrightarrow> R a c"
    and he: "heap_except R xs n k" and co: "children_ok R xs n k"
    and k: "1 \<le> k" "k < n" and n: "n \<le> int (length xs)"
    and ki: "R (item_at xs k) (item_at xs ((k - 1) div 2))"
  shows "heap_except R (swapped xs ((k - 1) div 2) k) n ((k - 1) div 2) \<and>
         children_ok R (swapped xs ((k - 1) div 2) k) n ((k - 1) div 2)"
proof -
  define i where "i = (k - 1) div 2"
  have ik: "0 \<le> i" "i < k" using k unfolding i_def by linarith+
  have sw: "\<And>c. 0 \<le> c \<Longrightarrow> item_at (swapped xs i k) c = (if c = k then item_at xs i else if c = i then item_at xs k else item_at xs c)"
    using item_at_swapped[of i xs k] k n ik by simp
  have sib: "\<And>s. 1 \<le> s \<Longrightarrow> s < n \<Longrightarrow> s \<noteq> k \<Longrightarrow> (s - 1) div 2 = i \<Longrightarrow> R (item_at xs i) (item_at xs s)"
    using he ik unfolding heap_except_def by (metis less_irrefl)
  have c1: "children_ok R (swapped xs i k) n i"
    unfolding children_ok_def
  proof (intro allI impI)
    fix c assume c: "1 \<le> c \<and> c < n \<and> (c - 1) div 2 = i"
    show "R (item_at (swapped xs i k) i) (item_at (swapped xs i k) c)"
    proof (cases "c = k")
      case True
      then show ?thesis using sw ik ki k by (simp add: i_def)
    next
      case False
      then have "R (item_at xs i) (item_at xs c)" using sib c by blast
      with ki have "R (item_at xs k) (item_at xs c)" unfolding i_def[symmetric] by (rule tr)
      moreover have "c \<noteq> i" using c by linarith
      ultimately show ?thesis using sw ik c False by simp
    qed
  qed
  have "heap_except R (swapped xs i k) n i"
    unfolding heap_except_def
  proof (intro allI impI conjI)
    fix c assume c: "1 \<le> c \<and> c < n"
    then have pc: "0 \<le> (c - 1) div 2" "(c - 1) div 2 < c" by linarith+
    { assume a: "c \<noteq> i \<and> (c - 1) div 2 \<noteq> i"
      then have ck: "c \<noteq> k" using i_def by blast
      show "R (item_at (swapped xs i k) ((c - 1) div 2)) (item_at (swapped xs i k) c)"
      proof (cases "(c - 1) div 2 = k")
        case True
        then have "R (item_at xs i) (item_at xs c)"
          using he c k unfolding heap_except_def i_def by blast
        then show ?thesis using True sw c ck a k by simp
      next
        case False
        then have "R (item_at xs ((c - 1) div 2)) (item_at xs c)"
          using he c ck unfolding heap_except_def by blast
        then show ?thesis using False sw c ck a pc by simp
      qed }
    { assume a: "(c - 1) div 2 = i \<and> 1 \<le> i"
      define g where "g = (i - 1) div 2"
      have g: "0 \<le> g" "g < i" using a unfolding g_def by linarith+
      have gi: "R (item_at xs g) (item_at xs i)"
        using he a ik k g unfolding heap_except_def g_def
        by (metis less_irrefl less_trans)
      have "R (item_at xs g) (item_at (swapped xs i k) c)"
      proof (cases "c = k")
        case True
        then show ?thesis using sw k gi by simp
      next
        case False
        then have "R (item_at xs i) (item_at xs c)" using sib c a by blast
        with gi have "R (item_at xs g) (item_at xs c)" by (rule tr)
        moreover have "c \<noteq> i" using a c by linarith
        ultimately show ?thesis using sw c False by simp
      qed
      moreover have "item_at (swapped xs i k) g = item_at xs g" using sw g ik by simp
      ultimately show "R (item_at (swapped xs i k) ((i - 1) div 2)) (item_at (swapped xs i k) c)"
        unfolding g_def by simp }
  qed
  with c1 show ?thesis unfolding i_def by simp
qed

lemma heap_except_after_swap_last:
  assumes tr: "\<And>a b c. R a b \<Longrightarrow> R b c \<Longrightarrow> R a c"
    and hp: "heap_upto R xs (n + 1)" and i: "0 \<le> i" "i < n" and n: "n < int (length xs)"
  shows "heap_except R (swapped xs i n) n i"
  unfolding heap_except_def
proof (intro allI impI conjI)
  have sw: "\<And>c. 0 \<le> c \<Longrightarrow> c < n \<Longrightarrow> c \<noteq> i \<Longrightarrow> item_at (swapped xs i n) c = item_at xs c"
    using item_at_swapped[of i xs n] i n by simp
  fix c assume c: "1 \<le> c \<and> c < n"
  then have pc: "0 \<le> (c - 1) div 2" "(c - 1) div 2 < c" by linarith+
  { assume "c \<noteq> i \<and> (c - 1) div 2 \<noteq> i"
    then show "R (item_at (swapped xs i n) ((c - 1) div 2)) (item_at (swapped xs i n) c)"
      using hp c pc sw unfolding heap_upto_def by simp }
  { assume a: "(c - 1) div 2 = i \<and> 1 \<le> i"
    then have g: "0 \<le> (i - 1) div 2" "(i - 1) div 2 < i" by linarith+
    have "R (item_at xs ((i - 1) div 2)) (item_at xs i)"
      using hp a i unfolding heap_upto_def by simp
    moreover have "R (item_at xs i) (item_at xs c)"
      using hp a c unfolding heap_upto_def by auto
    ultimately have "R (item_at xs ((i - 1) div 2)) (item_at xs c)" by (rule tr)
    moreover have "c \<noteq> i" using a c by linarith
    ultimately show "R (item_at (swapped xs i n) ((i - 1) div 2)) (item_at (swapped xs i n) c)"
      using sw c g i by simp }
qed

subsection \<open>The ordering function\<close>

lemma heap_order_trans:
  "heap_order cmp \<Longrightarrow> not_after cmp a b \<Longrightarrow> not_after cmp b c \<Longrightarrow> not_after cmp a c"
  unfolding heap_order_def by blast

lemma heap_order_lt:
  "heap_order cmp \<Longrightarrow> lt cmp a b \<Longrightarrow> not_after cmp a b"
  unfolding heap_order_def not_after_def by blast

lemma heap_order_refl: "heap_order cmp \<Longrightarrow> not_after cmp a a"
  unfolding heap_order_def not_after_def by blast

lemma valid_ordering_asym:
  assumes "valid_ordering cmp" "lt cmp a b"
  shows "\<not> lt cmp b a"
proof
  assume "lt cmp b a"
  then have "gt cmp a b" using assms(1) unfolding valid_ordering_def by blast
  with assms(2) show False
    by (auto simp: lt_def gt_def word_sless_alt split: sum.splits)
qed

lemma valid_ordering_heap_order:
  assumes v: "valid_ordering cmp"
  shows "heap_order cmp"
  unfolding heap_order_def not_after_def
proof (intro conjI allI impI)
  show "never_panics cmp" using v unfolding valid_ordering_def by blast
next
  fix a b assume "lt cmp a b"
  then show "\<not> lt cmp b a" using valid_ordering_asym[OF v] by blast
next
  fix a b c assume h: "\<not> lt cmp b a \<and> \<not> lt cmp c b"
  have tr: "\<And>x y z. lt cmp x y \<Longrightarrow> lt cmp y z \<Longrightarrow> lt cmp x z"
    using v unfolding valid_ordering_def by blast
  have eq: "\<And>x y z. \<not> lt cmp x y \<Longrightarrow> \<not> lt cmp y x \<Longrightarrow> \<not> lt cmp y z \<Longrightarrow> \<not> lt cmp z y \<Longrightarrow> \<not> lt cmp x z"
    using v unfolding valid_ordering_def by blast
  show "\<not> lt cmp c a"
  proof
    assume ca: "lt cmp c a"
    have "\<not> lt cmp a b" using tr[OF ca] h by blast
    moreover have "\<not> lt cmp b c" using tr[OF _ ca] h by blast
    ultimately show False using eq[of c b a] h ca by blast
  qed
qed

lemma valid_ordering_leq:
  assumes v: "valid_ordering cmp"
  shows "leq cmp a b = not_after cmp a b"
proof -
  obtain r where r: "cmp a b = Inr r"
    using v unfolding valid_ordering_def never_panics_def by blast
  have "lt cmp b a \<longleftrightarrow> gt cmp a b" using v unfolding valid_ordering_def by blast
  then show ?thesis
    using r by (auto simp: leq_def not_after_def gt_def word_sle_eq word_sless_alt)
qed

lemma valid_compare_ints: "valid_ordering compare_ints"
  unfolding valid_ordering_def never_panics_def lt_def gt_def compare_ints_def
  by (auto simp: word_sless_alt word_sle_eq signed_word_eqI)

lemma heap_property_upto:
  assumes v: "valid_ordering cmp"
  shows "heap_property cmp xs = heap_upto (not_after cmp) xs (int (length xs))"
proof
  assume h: "heap_property cmp xs"
  show "heap_upto (not_after cmp) xs (int (length xs))"
    unfolding heap_upto_def
  proof (intro allI impI)
    fix c :: int assume c: "1 \<le> c \<and> c < int (length xs)"
    define i where "i = nat ((c - 1) div 2)"
    have i: "int i = (c - 1) div 2" "i < length xs" "nat c = 2 * i + 1 \<or> nat c = 2 * i + 2"
      "nat c < length xs"
      using c unfolding i_def by auto
    then have "leq cmp (xs ! i) (xs ! nat c)"
      using h unfolding heap_property_def by metis
    then show "not_after cmp (item_at xs ((c - 1) div 2)) (item_at xs c)"
      using valid_ordering_leq[OF v] i(1)[symmetric] by (simp add: item_at_def)
  qed
next
  assume h: "heap_upto (not_after cmp) xs (int (length xs))"
  have ch: "leq cmp (xs ! i) (xs ! j)" if "j < length xs" "j = 2 * i + 1 \<or> j = 2 * i + 2" for i j
  proof -
    have "1 \<le> int j \<and> int j < int (length xs)" "(int j - 1) div 2 = int i"
      using that by auto
    then have "not_after cmp (item_at xs (int i)) (item_at xs (int j))"
      using h unfolding heap_upto_def by metis
    then show ?thesis using valid_ordering_leq[OF v] by (simp add: item_at_def)
  qed
  show "heap_property cmp xs"
    unfolding heap_property_def using ch by blast
qed

lemma root_least:
  assumes refl: "\<And>a. R a a" and tr: "\<And>a b c. R a b \<Longrightarrow> R b c \<Longrightarrow> R a c"
    and hp: "heap_upto R xs (int (length xs))"
  shows "k < length xs \<Longrightarrow> R (xs ! 0) (xs ! k)"
proof (induction k rule: less_induct)
  case (less k)
  show ?case
  proof (cases "k = 0")
    case True
    then show ?thesis using refl by simp
  next
    case False
    define p where "p = (k - 1) div 2"
    have p: "p < k" "int p = (int k - 1) div 2" using False unfolding p_def by auto
    have "R (item_at xs ((int k - 1) div 2)) (item_at xs (int k))"
      using hp False less.prems unfolding heap_upto_def by simp
    then have "R (xs ! p) (xs ! k)" using p(2)[symmetric] by (simp add: item_at_def)
    moreover have "R (xs ! 0) (xs ! p)" using less.IH[OF p(1)] less.prems p(1) by simp
    ultimately show ?thesis using tr by blast
  qed
qed

lemma strings_Compare_lexord:
  "strings_Compare x y =
     (if (x, y) \<in> lexord byte_less then - 1 else if (y, x) \<in> lexord byte_less then 1 else 0)"
proof (induction x y rule: strings_Compare.induct)
  case (4 x xs y ys)
  have "(of_char x :: nat) = of_char y \<longleftrightarrow> x = y" by simp
  then show ?case using 4 by (auto simp: byte_less_def)
qed (simp_all add: byte_less_def)

subsection \<open>The loops of container/heap\<close>

lemma Less_in_range:
  assumes "never_panics (comparator h)" "0 \<le> i" "i < int (length (items h))"
    "0 \<le> j" "j < int (length (items h))"
  shows "Less h i j = Inr (lt (comparator h) (item_at (items h) i) (item_at (items h) j))"
proof -
  obtain r where "comparator h (items h ! nat i) (items h ! nat j) = Inr r"
    using assms(1) unfolding never_panics_def by blast
  then show ?thesis using assms by (simp add: Less_def index_def lt_def item_at_def)
qed

lemma Swap_in_range:
  assumes "0 \<le> i" "i < int (length (items h))" "0 \<le> j" "j < int (length (items h))"
  shows "Swap h i j = Return (h\<lparr>items := swapped (items h) i j\<rparr>) ()"
  using assms by (simp add: Swap_def index_def swapped_def)

lemma sdiv_2_nonneg: "0 \<le> (a::int) \<Longrightarrow> a sdiv 2 = a div 2"
  by (simp add: signed_divide_int_def sgn_if)

lemma down_loop_correct:
  assumes ho: "heap_order cmp"
  shows "comparator h = cmp \<Longrightarrow> 0 \<le> k \<Longrightarrow> n \<le> int (length (items h)) \<Longrightarrow>
     heap_except (not_after cmp) (items h) n k \<Longrightarrow>
     \<exists>h' m. down_loop h k n = Return h' m \<and> down_post (not_after cmp) h k n h' m"
proof (induction h k n rule: down_loop.induct)
  case (1 h i n)
  let ?R = "not_after cmp"
  let ?xs = "items h"
  note np = ho[unfolded heap_order_def, THEN conjunct1]
  show ?case
  proof (cases "n \<le> 2 * i + 1")
    case True
    have "children_ok ?R ?xs n i"
      unfolding children_ok_def using True by (auto; linarith)
    then have "down_post ?R h i n h i"
      using "1.prems" by (simp add: down_post_def)
    moreover have "down_loop h i n = Return h i"
      using True by (subst down_loop.simps) simp
    ultimately show ?thesis by blast
  next
    case False
    define j1 where "j1 = 2 * i + 1"
    define j2 where "j2 = j1 + 1"
    define b where "b = (j2 < n \<and> lt cmp (item_at ?xs j2) (item_at ?xs j1))"
    define j where "j = (if b then j2 else j1)"
    define c where "c = lt cmp (item_at ?xs j) (item_at ?xs i)"
    have j1: "0 \<le> j1" "j1 < n" "\<not> (n \<le> j1 \<or> j1 < 0)" using False "1.prems" unfolding j1_def by auto
    have len: "n \<le> int (length ?xs)" "0 \<le> i" "i < int (length ?xs)" "i < n"
      using "1.prems" j1 unfolding j1_def by auto
    have Lb: "(if j2 < n then Less h j2 j1 else Inr False) = Inr b"
      using Less_in_range[of h j2 j1] np "1.prems" j1 len unfolding b_def j2_def by auto
    have j: "j < n" "(j - 1) div 2 = i" "1 \<le> j" "0 \<le> j" "i < j"
      using j1 len unfolding j_def b_def j2_def j1_def by auto
    have Lc: "Less h j i = Inr c"
      using Less_in_range[of h j i] np "1.prems" j len unfolding c_def by auto
    have minc: "?R (item_at ?xs j) (item_at ?xs s)"
      if s: "1 \<le> s" "s < n" "(s - 1) div 2 = i" for s
    proof -
      have "s = j1 \<or> s = j2" using s unfolding j1_def j2_def by linarith
      then show ?thesis
        using s heap_order_refl[OF ho] heap_order_lt[OF ho]
        unfolding j_def b_def by (auto simp: not_after_def)
    qed
    show ?thesis
    proof (cases c)
      case False
      have "?R (item_at ?xs i) (item_at ?xs j)"
        using False unfolding c_def not_after_def by simp
      then have "children_ok ?R ?xs n i"
        unfolding children_ok_def using minc heap_order_trans[OF ho] by blast
      then have "down_post ?R h i n h i"
        using "1.prems" by (simp add: down_post_def)
      moreover have "down_loop h i n = Return h i"
        using j1 Lb Lc False
        by (subst down_loop.simps) (simp add: Let_def j1_def[symmetric] j2_def[symmetric] j_def[symmetric])
      ultimately show ?thesis by blast
    next
      case True
      define h1 where "h1 = h\<lparr>items := swapped ?xs i j\<rparr>"
      have Sw: "Swap h i j = Return h1 ()"
        using Swap_in_range[of i h j] len j unfolding h1_def by simp
      have jk: "?R (item_at ?xs j) (item_at ?xs i)"
        using True heap_order_lt[OF ho] unfolding c_def by blast
      have st: "heap_except ?R (items h1) n j \<and> parent_ok ?R (items h1) j"
        using swap_down_step[of ?R ?xs n i j] "1.prems" len j minc jk
        unfolding h1_def by simp
      have "\<exists>h' m. down_loop h1 j n = Return h' m \<and> down_post ?R h1 j n h' m"
      proof (rule "1.IH"[OF j1_def j1(3) j2_def Lb j_def Lc _ Sw])
        show "\<not> \<not> c" using True by simp
        show "comparator h1 = cmp" using "1.prems" by (simp add: h1_def)
        show "0 \<le> j" by fact
        show "n \<le> int (length (items h1))" using len by (simp add: h1_def length_swapped)
        show "heap_except ?R (items h1) n j" using st by simp
      qed
      then obtain h' m where r: "down_loop h1 j n = Return h' m" and p: "down_post ?R h1 j n h' m"
        by blast
      have unch: "\<forall>c. n \<le> c \<longrightarrow> item_at (items h1) c = item_at ?xs c"
        using item_at_swapped[of i ?xs j] len j unfolding h1_def by auto
      have "down_post ?R h i n h' m"
        using p st j len unch
        unfolding down_post_def
        by (auto simp: h1_def length_swapped mset_swapped)
      moreover have "down_loop h i n = Return h' m"
        using j1 Lb Lc True Sw r
        by (subst down_loop.simps) (simp add: Let_def j1_def[symmetric] j2_def[symmetric] j_def[symmetric])
      ultimately show ?thesis by blast
    qed
  qed
qed

lemma up_correct:
  assumes ho: "heap_order cmp"
  shows "comparator h = cmp \<Longrightarrow> 0 \<le> k \<Longrightarrow> k < n \<Longrightarrow> n \<le> int (length (items h)) \<Longrightarrow>
     heap_except (not_after cmp) (items h) n k \<Longrightarrow> children_ok (not_after cmp) (items h) n k \<Longrightarrow>
     \<exists>h'. up h k = Return h' () \<and> comparator h' = cmp \<and>
       length (items h') = length (items h) \<and> mset (items h') = mset (items h) \<and>
       heap_upto (not_after cmp) (items h') n \<and>
       (\<forall>c. n \<le> c \<longrightarrow> item_at (items h') c = item_at (items h) c)"
proof (induction h k rule: up.induct)
  case (1 h j)
  let ?R = "not_after cmp"
  let ?xs = "items h"
  note np = ho[unfolded heap_order_def, THEN conjunct1]
  show ?case
  proof (cases "j = 0")
    case True
    have "up h j = Return h ()"
      using True by (subst up.simps) (simp add: signed_divide_int_def)
    moreover have "heap_upto ?R ?xs n"
      using heap_upto_iff[of ?R ?xs n j] "1.prems" True by (simp add: parent_ok_def)
    ultimately show ?thesis using "1.prems" by simp
  next
    case False
    define i where "i = (j - 1) sdiv 2"
    have i: "i = (j - 1) div 2" "0 \<le> i" "i < j" "i \<noteq> j"
      using False "1.prems" sdiv_2_nonneg[of "j - 1"] unfolding i_def by auto
    define b where "b = lt cmp (item_at ?xs j) (item_at ?xs i)"
    have Lb: "Less h j i = Inr b"
      using Less_in_range[of h j i] np "1.prems" i unfolding b_def by auto
    show ?thesis
    proof (cases b)
      case False
      have "up h j = Return h ()"
        using i Lb False by (subst up.simps) (simp add: Let_def i_def[symmetric])
      moreover have "parent_ok ?R ?xs j"
        using False i unfolding parent_ok_def b_def not_after_def by simp
      then have "heap_upto ?R ?xs n"
        using heap_upto_iff[of ?R ?xs n j] "1.prems" by simp
      ultimately show ?thesis using "1.prems" by simp
    next
      case True
      define h1 where "h1 = h\<lparr>items := swapped ?xs i j\<rparr>"
      have Sw: "Swap h i j = Return h1 ()"
        using Swap_in_range[of i h j] "1.prems" i unfolding h1_def by simp
      have ji: "?R (item_at ?xs j) (item_at ?xs ((j - 1) div 2))"
        using True heap_order_lt[OF ho] i unfolding b_def by blast
      have st: "heap_except ?R (items h1) n i \<and> children_ok ?R (items h1) n i"
        using swap_up_step[of ?R ?xs n j] heap_order_trans[OF ho] "1.prems" False ji i
        unfolding h1_def by simp
      have "\<exists>h'. up h1 i = Return h' () \<and> comparator h' = cmp \<and>
         length (items h') = length (items h1) \<and> mset (items h') = mset (items h1) \<and>
         heap_upto ?R (items h') n \<and>
         (\<forall>c. n \<le> c \<longrightarrow> item_at (items h') c = item_at (items h1) c)"
      proof (rule "1.IH"[OF i_def i(4) Lb _ Sw])
        show "\<not> \<not> b" using True by simp
        show "comparator h1 = cmp" using "1.prems" by (simp add: h1_def)
        show "0 \<le> i" by fact
        show "i < n" using i "1.prems" by simp
        show "n \<le> int (length (items h1))" using "1.prems" by (simp add: h1_def length_swapped)
        show "heap_except ?R (items h1) n i" using st by simp
        show "children_ok ?R (items h1) n i" using st by simp
      qed
      then obtain h' where r: "up h1 i = Return h' ()" and p: "comparator h' = cmp"
        "length (items h') = length (items h1)" "mset (items h') = mset (items h1)"
        "heap_upto ?R (items h') n"
        "\<forall>c. n \<le> c \<longrightarrow> item_at (items h') c = item_at (items h1) c"
        by blast
      have unch: "\<forall>c. n \<le> c \<longrightarrow> item_at (items h1) c = item_at ?xs c"
        using item_at_swapped[of i ?xs j] "1.prems" i unfolding h1_def by auto
      have "up h j = Return h' ()"
        using i Lb True Sw r by (subst up.simps) (simp add: Let_def i_def[symmetric])
      moreover have "mset (items h1) = mset ?xs" "length (items h1) = length ?xs"
        using mset_swapped[of i ?xs j] "1.prems" i by (auto simp: h1_def length_swapped)
      ultimately show ?thesis using p unch by simp
    qed
  qed
qed

lemma up_noop:
  assumes ho: "heap_order cmp" and c: "comparator h = cmp"
    and hp: "heap_upto (not_after cmp) (items h) (int (length (items h)))"
  shows "up h (int (length (items h)) - 1) = Return h ()"
proof (cases "length (items h) \<le> 1")
  case True
  then have "length (items h) = 0 \<or> length (items h) = 1" by linarith
  then show ?thesis
    by (subst up.simps) (auto simp: signed_divide_int_def)
next
  case False
  define j where "j = int (length (items h)) - 1"
  define i where "i = (j - 1) sdiv 2"
  have j: "1 \<le> j" "j < int (length (items h))" using False unfolding j_def by auto
  have i: "i = (j - 1) div 2" "0 \<le> i" "i < j" "i \<noteq> j"
    using j sdiv_2_nonneg[of "j - 1"] unfolding i_def by auto
  have "Less h j i = Inr (lt cmp (item_at (items h) j) (item_at (items h) i))"
    using Less_in_range[of h j i] ho c i j unfolding heap_order_def by auto
  moreover have "\<not> lt cmp (item_at (items h) j) (item_at (items h) i)"
    using hp j i unfolding heap_upto_def not_after_def by auto
  ultimately show ?thesis
    using i unfolding j_def[symmetric]
    by (subst up.simps) (simp add: Let_def i_def[symmetric])
qed

lemma down_loop_returns:
  assumes np: "never_panics cmp"
  shows "comparator h = cmp \<Longrightarrow> 0 \<le> k \<Longrightarrow> n \<le> int (length (items h)) \<Longrightarrow>
     \<exists>h' m. down_loop h k n = Return h' m \<and> comparator h' = cmp \<and>
       length (items h') = length (items h) \<and> mset (items h') = mset (items h) \<and>
       (\<forall>c. n \<le> c \<longrightarrow> item_at (items h') c = item_at (items h) c)"
proof (induction h k n rule: down_loop.induct)
  case (1 h i n)
  let ?xs = "items h"
  show ?case
  proof (cases "n \<le> 2 * i + 1")
    case True
    have "down_loop h i n = Return h i"
      using True by (subst down_loop.simps) simp
    then show ?thesis using "1.prems" by simp
  next
    case False
    define j1 where "j1 = 2 * i + 1"
    define j2 where "j2 = j1 + 1"
    define b where "b = (j2 < n \<and> lt cmp (item_at ?xs j2) (item_at ?xs j1))"
    define j where "j = (if b then j2 else j1)"
    define c where "c = lt cmp (item_at ?xs j) (item_at ?xs i)"
    have j1: "0 \<le> j1" "j1 < n" "\<not> (n \<le> j1 \<or> j1 < 0)" using False "1.prems" unfolding j1_def by auto
    have len: "n \<le> int (length ?xs)" "0 \<le> i" "i < int (length ?xs)" "i < n"
      using "1.prems" j1 unfolding j1_def by auto
    have Lb: "(if j2 < n then Less h j2 j1 else Inr False) = Inr b"
      using Less_in_range[of h j2 j1] np "1.prems" j1 len unfolding b_def j2_def by auto
    have j: "j < n" "0 \<le> j" "i < j"
      using j1 len unfolding j_def b_def j2_def j1_def by auto
    have Lc: "Less h j i = Inr c"
      using Less_in_range[of h j i] np "1.prems" j len unfolding c_def by auto
    show ?thesis
    proof (cases c)
      case False
      have "down_loop h i n = Return h i"
        using j1 Lb Lc False
        by (subst down_loop.simps) (simp add: Let_def j1_def[symmetric] j2_def[symmetric] j_def[symmetric])
      then show ?thesis using "1.prems" by simp
    next
      case True
      define h1 where "h1 = h\<lparr>items := swapped ?xs i j\<rparr>"
      have Sw: "Swap h i j = Return h1 ()"
        using Swap_in_range[of i h j] len j unfolding h1_def by simp
      have "\<exists>h' m. down_loop h1 j n = Return h' m \<and> comparator h' = cmp \<and>
         length (items h') = length (items h1) \<and> mset (items h') = mset (items h1) \<and>
         (\<forall>c. n \<le> c \<longrightarrow> item_at (items h') c = item_at (items h1) c)"
      proof (rule "1.IH"[OF j1_def j1(3) j2_def Lb j_def Lc _ Sw])
        show "\<not> \<not> c" using True by simp
        show "comparator h1 = cmp" using "1.prems" by (simp add: h1_def)
        show "0 \<le> j" by fact
        show "n \<le> int (length (items h1))" using len by (simp add: h1_def length_swapped)
      qed
      then obtain h' m where r: "down_loop h1 j n = Return h' m" and p: "comparator h' = cmp"
         "length (items h') = length (items h1)" "mset (items h') = mset (items h1)"
         "\<forall>c. n \<le> c \<longrightarrow> item_at (items h') c = item_at (items h1) c"
        by blast
      have unch: "\<forall>c. n \<le> c \<longrightarrow> item_at (items h1) c = item_at ?xs c"
        using item_at_swapped[of i ?xs j] len j unfolding h1_def by auto
      have "down_loop h i n = Return h' m"
        using j1 Lb Lc True Sw r
        by (subst down_loop.simps) (simp add: Let_def j1_def[symmetric] j2_def[symmetric] j_def[symmetric])
      moreover have "mset (items h1) = mset ?xs" "length (items h1) = length ?xs"
        using mset_swapped[of i ?xs j] len j by (auto simp: h1_def length_swapped)
      ultimately show ?thesis using p unch by simp
    qed
  qed
qed

lemma up_returns:
  assumes np: "never_panics cmp"
  shows "comparator h = cmp \<Longrightarrow> - 1 \<le> k \<Longrightarrow> k < n \<Longrightarrow> n \<le> int (length (items h)) \<Longrightarrow>
     \<exists>h'. up h k = Return h' () \<and> comparator h' = cmp \<and>
       length (items h') = length (items h) \<and> mset (items h') = mset (items h) \<and>
       (\<forall>c. n \<le> c \<longrightarrow> item_at (items h') c = item_at (items h) c)"
proof (induction h k rule: up.induct)
  case (1 h j)
  let ?xs = "items h"
  show ?case
  proof (cases "j \<le> 0")
    case True
    then have "j = 0 \<or> j = - 1" using "1.prems" by linarith
    then have "up h j = Return h ()"
      by (subst up.simps) (auto simp: signed_divide_int_def)
    then show ?thesis using "1.prems" by simp
  next
    case False
    define i where "i = (j - 1) sdiv 2"
    have i: "i = (j - 1) div 2" "0 \<le> i" "i < j" "i \<noteq> j"
      using False "1.prems" sdiv_2_nonneg[of "j - 1"] unfolding i_def by auto
    define b where "b = lt cmp (item_at ?xs j) (item_at ?xs i)"
    have Lb: "Less h j i = Inr b"
      using Less_in_range[of h j i] np "1.prems" i unfolding b_def by auto
    show ?thesis
    proof (cases b)
      case False
      have "up h j = Return h ()"
        using i Lb False by (subst up.simps) (simp add: Let_def i_def[symmetric])
      then show ?thesis using "1.prems" by simp
    next
      case True
      define h1 where "h1 = h\<lparr>items := swapped ?xs i j\<rparr>"
      have Sw: "Swap h i j = Return h1 ()"
        using Swap_in_range[of i h j] "1.prems" i unfolding h1_def by simp
      have "\<exists>h'. up h1 i = Return h' () \<and> comparator h' = cmp \<and>
         length (items h') = length (items h1) \<and> mset (items h') = mset (items h1) \<and>
         (\<forall>c. n \<le> c \<longrightarrow> item_at (items h') c = item_at (items h1) c)"
      proof (rule "1.IH"[OF i_def i(4) Lb _ Sw])
        show "\<not> \<not> b" using True by simp
        show "comparator h1 = cmp" using "1.prems" by (simp add: h1_def)
        show "- 1 \<le> i" using i by simp
        show "i < n" using i "1.prems" by simp
        show "n \<le> int (length (items h1))" using "1.prems" by (simp add: h1_def length_swapped)
      qed
      then obtain h' where r: "up h1 i = Return h' ()" and p: "comparator h' = cmp"
        "length (items h') = length (items h1)" "mset (items h') = mset (items h1)"
        "\<forall>c. n \<le> c \<longrightarrow> item_at (items h') c = item_at (items h1) c"
        by blast
      have unch: "\<forall>c. n \<le> c \<longrightarrow> item_at (items h1) c = item_at ?xs c"
        using item_at_swapped[of i ?xs j] "1.prems" i unfolding h1_def by auto
      have "up h j = Return h' ()"
        using i Lb True Sw r by (subst up.simps) (simp add: Let_def i_def[symmetric])
      moreover have "mset (items h1) = mset ?xs" "length (items h1) = length ?xs"
        using mset_swapped[of i ?xs j] "1.prems" i by (auto simp: h1_def length_swapped)
      ultimately show ?thesis using p unch by simp
    qed
  qed
qed

subsection \<open>Push, Pop and Remove of container/heap\<close>

lemma internalHeap_Pop_nonempty:
  assumes "items h \<noteq> []"
  shows "internalHeap_Pop h =
     Return (h\<lparr>items := butlast (items h)\<rparr>) (last (items h))"
proof -
  have "nat (int (length (items h)) - 1) = length (items h) - 1" by simp
  moreover have "0 < length (items h)" using assms by simp
  ultimately show ?thesis
    using assms
    by (simp add: internalHeap_Pop_def index_def Let_def butlast_conv_take last_conv_nth)
qed

lemma heap_upto_butlast:
  assumes "heap_upto R xs (int (length xs) - 1)"
  shows "heap_upto R (butlast xs) (int (length (butlast xs)))"
proof -
  have "item_at (butlast xs) c = item_at xs c" if "0 \<le> c" "c < int (length xs) - 1" for c
    using that by (simp add: item_at_def nth_butlast)
  moreover have "0 \<le> (c - 1) div 2 \<and> (c - 1) div 2 < c" if "1 \<le> c" for c :: int
    using that by linarith
  ultimately show ?thesis
    using assms unfolding heap_upto_def by (auto simp: less_diff_conv)
qed

lemma heap_upto_shorter: "heap_upto R xs n \<Longrightarrow> m \<le> n \<Longrightarrow> heap_upto R xs m"
  unfolding heap_upto_def by auto

lemma mset_butlast: "xs \<noteq> [] \<Longrightarrow> mset (butlast xs) = mset xs - {#last xs#}"
  by (induction xs) auto

lemma last_item_at: "xs \<noteq> [] \<Longrightarrow> last xs = item_at xs (int (length xs) - 1)"
  by (simp add: last_conv_nth item_at_def nat_diff_distrib')

lemma pop_after_sift:
  assumes "items h \<noteq> []" "heap_upto R (items h) (int (length (items h)) - 1)"
  shows "\<exists>h'. internalHeap_Pop h = Return h' (item_at (items h) (int (length (items h)) - 1)) \<and>
     comparator h' = comparator h \<and>
     mset (items h') = mset (items h) - {#item_at (items h) (int (length (items h)) - 1)#} \<and>
     heap_upto R (items h') (int (length (items h')))"
  using assms internalHeap_Pop_nonempty[of h] heap_upto_butlast[of R "items h"]
    mset_butlast[of "items h"] last_item_at[of "items h"]
  by simp

lemma pop_last:
  assumes "items h \<noteq> []"
  shows "\<exists>h'. internalHeap_Pop h = Return h' (item_at (items h) (int (length (items h)) - 1)) \<and>
     comparator h' = comparator h \<and>
     mset (items h') = mset (items h) - {#item_at (items h) (int (length (items h)) - 1)#}"
  using assms internalHeap_Pop_nonempty[of h]
    mset_butlast[of "items h"] last_item_at[of "items h"]
  by simp

lemma heap_Push_correct:
  assumes ho: "heap_order cmp" and c: "comparator h = cmp"
    and hp: "heap_upto (not_after cmp) (items h) (int (length (items h)))"
    and x: "to_any T x \<noteq> DNil"
  shows "\<exists>h'. heap_Push T h x = Return h' () \<and> comparator h' = cmp \<and>
     mset (items h') = mset (items h) + {#x#} \<and>
     heap_upto (not_after cmp) (items h') (int (length (items h')))"
proof -
  let ?R = "not_after cmp"
  define h1 where "h1 = h\<lparr>items := items h @ [x]\<rparr>"
  define n where "n = int (length (items h))"
  have h1: "internalHeap_Push T h x = h1" "Len h1 - 1 = n" "comparator h1 = cmp"
    using x c by (simp_all add: internalHeap_Push_def h1_def Len_def n_def)
  have old: "item_at (items h1) c = item_at (items h) c" if "0 \<le> c" "c < n" for c
    using that by (simp add: item_at_def h1_def n_def nth_append nat_less_iff)
  have par: "0 \<le> (c - 1) div 2 \<and> (c - 1) div 2 < c" if "1 \<le> c" for c :: int
    using that by linarith
  have he: "heap_except ?R (items h1) (n + 1) n"
    unfolding heap_except_def
  proof (intro allI impI conjI)
    fix c assume c: "1 \<le> c \<and> c < n + 1"
    { assume "c \<noteq> n \<and> (c - 1) div 2 \<noteq> n"
      then have "c < n" using c by simp
      then show "?R (item_at (items h1) ((c - 1) div 2)) (item_at (items h1) c)"
        using hp c old par[of c] unfolding heap_upto_def n_def[symmetric] by simp }
    { assume "(c - 1) div 2 = n \<and> 1 \<le> n"
      then have False using c by linarith
      then show "?R (item_at (items h1) ((n - 1) div 2)) (item_at (items h1) c)" by simp }
  qed
  have co: "children_ok ?R (items h1) (n + 1) n"
    unfolding children_ok_def by (auto; linarith)
  have "\<exists>h'. up h1 n = Return h' () \<and> comparator h' = cmp \<and>
       length (items h') = length (items h1) \<and> mset (items h') = mset (items h1) \<and>
       heap_upto ?R (items h') (n + 1) \<and>
       (\<forall>c. n + 1 \<le> c \<longrightarrow> item_at (items h') c = item_at (items h1) c)"
    using up_correct[OF ho h1(3) _ _ _ he co] by (simp add: n_def h1_def)
  then obtain h' where "up h1 n = Return h' ()" "comparator h' = cmp"
       "length (items h') = length (items h1)" "mset (items h') = mset (items h1)"
       "heap_upto ?R (items h') (n + 1)" by blast
  then show ?thesis
    unfolding heap_Push_def Let_def h1(1) h1(2)
    by (auto simp: h1_def n_def add.commute)
qed

lemma heap_Push_nil:
  assumes ho: "heap_order cmp" and c: "comparator h = cmp"
    and hp: "heap_upto (not_after cmp) (items h) (int (length (items h)))"
    and x: "to_any T x = DNil"
  shows "heap_Push T h x = Return h ()"
  using up_noop[OF ho c hp] x by (simp add: heap_Push_def internalHeap_Push_def Len_def)

lemma heap_Push_returns:
  assumes np: "never_panics (comparator h)"
  shows "\<exists>h'. heap_Push T h x = Return h' () \<and> comparator h' = comparator h \<and>
     mset (items h') = (if to_any T x = DNil then mset (items h) else mset (items h) + {#x#})"
proof -
  define h1 where "h1 = internalHeap_Push T h x"
  have h1: "comparator h1 = comparator h"
    "mset (items h1) = (if to_any T x = DNil then mset (items h) else mset (items h) + {#x#})"
    by (simp_all add: h1_def internalHeap_Push_def)
  have "\<exists>h'. up h1 (Len h1 - 1) = Return h' () \<and> comparator h' = comparator h \<and>
       length (items h') = length (items h1) \<and> mset (items h') = mset (items h1) \<and>
       (\<forall>c. Len h1 \<le> c \<longrightarrow> item_at (items h') c = item_at (items h1) c)"
    by (rule up_returns[OF np h1(1)]) (simp_all add: Len_def)
  then show ?thesis
    using h1 unfolding heap_Push_def Let_def h1_def[symmetric] by auto
qed

lemma heap_Remove_correct:
  assumes ho: "heap_order cmp" and c: "comparator h = cmp"
    and hp: "heap_upto (not_after cmp) (items h) (int (length (items h)))"
    and i: "0 \<le> i" "i < int (length (items h))"
  shows "\<exists>h'. heap_Remove h i = Return h' (item_at (items h) i) \<and> comparator h' = cmp \<and>
     mset (items h') = mset (items h) - {#item_at (items h) i#} \<and>
     heap_upto (not_after cmp) (items h') (int (length (items h')))"
proof -
  let ?R = "not_after cmp"
  let ?xs = "items h"
  define n where "n = int (length ?xs) - 1"
  have n: "Len h - 1 = n" "0 \<le> n" "n < int (length ?xs)" "i \<le> n" "?xs \<noteq> []"
    using i by (auto simp: Len_def n_def)
  show ?thesis
  proof (cases "i = n")
    case True
    have "heap_upto ?R ?xs (int (length ?xs) - 1)"
      using hp by (rule heap_upto_shorter) simp
    from pop_after_sift[OF n(5) this] show ?thesis
      using True n c unfolding heap_Remove_def Let_def n(1) by (auto simp: n_def)
  next
    case False
    then have i_n: "i < n" using n by simp
    define h1 where "h1 = h\<lparr>items := swapped ?xs i n\<rparr>"
    have Sw: "Swap h i n = Return h1 ()"
      using Swap_in_range[of i h n] i n unfolding h1_def by simp
    have h1: "comparator h1 = cmp" "length (items h1) = length ?xs" "mset (items h1) = mset ?xs"
      "item_at (items h1) n = item_at ?xs i" "n \<le> int (length (items h1))"
      using c i n mset_swapped[of i ?xs n] item_at_swapped[of i ?xs n n]
      by (auto simp: h1_def length_swapped)
    have "heap_upto ?R ?xs (n + 1)" using hp by (simp add: n_def)
    then have he: "heap_except ?R (items h1) n i"
      using heap_except_after_swap_last[of ?R ?xs n i] heap_order_trans[OF ho] i i_n n
      unfolding h1_def by simp
    obtain h2 m where d: "down_loop h1 i n = Return h2 m" and p: "down_post ?R h1 i n h2 m"
      using down_loop_correct[OF ho h1(1) i(1) h1(5) he] by blast
    have h2: "comparator h2 = cmp" "length (items h2) = length ?xs" "mset (items h2) = mset ?xs"
      "item_at (items h2) n = item_at ?xs i" "i \<le> m"
      using p h1 unfolding down_post_def by auto
    have "\<exists>h3. (if \<not> (i < m) then up h2 i else Return h2 ()) = Return h3 () \<and>
        comparator h3 = cmp \<and> length (items h3) = length ?xs \<and> mset (items h3) = mset ?xs \<and>
        item_at (items h3) n = item_at ?xs i \<and> heap_upto ?R (items h3) n"
    proof (cases "i < m")
      case True
      then have "heap_upto ?R (items h2) n"
        using p heap_upto_iff[of ?R "items h2" n m] unfolding down_post_def by simp
      then show ?thesis using True h2 by simp
    next
      case False
      then have "h2 = h1" "children_ok ?R (items h1) n i"
        using p h2 unfolding down_post_def by auto
      then show ?thesis
        using up_correct[OF ho h1(1) i(1) i_n h1(5) he] h1 False by auto
    qed
    then obtain h3 where u: "(if \<not> (i < m) then up h2 i else Return h2 ()) = Return h3 ()"
      and h3: "comparator h3 = cmp" "length (items h3) = length ?xs" "mset (items h3) = mset ?xs"
        "item_at (items h3) n = item_at ?xs i" "heap_upto ?R (items h3) n"
      by blast
    have "items h3 \<noteq> []" "heap_upto ?R (items h3) (int (length (items h3)) - 1)"
      "int (length (items h3)) - 1 = n"
      using h3 n by (auto simp: n_def)
    from pop_after_sift[OF this(1,2)] this(3) show ?thesis
      using False Sw d u h3
      unfolding heap_Remove_def Let_def n(1) down_def by auto
  qed
qed

lemma heap_Remove_returns:
  assumes np: "never_panics (comparator h)"
    and i: "0 \<le> i" "i < int (length (items h))"
  shows "\<exists>h'. heap_Remove h i = Return h' (item_at (items h) i) \<and>
     comparator h' = comparator h \<and>
     mset (items h') = mset (items h) - {#item_at (items h) i#}"
proof -
  let ?xs = "items h"
  define cmp where "cmp = comparator h"
  define n where "n = int (length ?xs) - 1"
  have n: "Len h - 1 = n" "0 \<le> n" "n < int (length ?xs)" "i \<le> n" "?xs \<noteq> []"
    using i by (auto simp: Len_def n_def)
  show ?thesis
  proof (cases "i = n")
    case True
    from pop_last[OF n(5)] show ?thesis
      using True n unfolding heap_Remove_def Let_def n(1) by (auto simp: n_def)
  next
    case False
    then have i_n: "i < n" using n by simp
    define h1 where "h1 = h\<lparr>items := swapped ?xs i n\<rparr>"
    have Sw: "Swap h i n = Return h1 ()"
      using Swap_in_range[of i h n] i n unfolding h1_def by simp
    have h1: "comparator h1 = cmp" "length (items h1) = length ?xs" "mset (items h1) = mset ?xs"
      "item_at (items h1) n = item_at ?xs i" "n \<le> int (length (items h1))"
      using i n mset_swapped[of i ?xs n] item_at_swapped[of i ?xs n n]
      by (auto simp: h1_def length_swapped cmp_def)
    have np': "never_panics cmp" using np by (simp add: cmp_def)
    obtain h2 m where d: "down_loop h1 i n = Return h2 m" and h2: "comparator h2 = cmp"
      "length (items h2) = length (items h1)" "mset (items h2) = mset (items h1)"
      "\<forall>c. n \<le> c \<longrightarrow> item_at (items h2) c = item_at (items h1) c"
      using down_loop_returns[OF np' h1(1) i(1) h1(5)] by blast
    have "\<exists>h3. (if \<not> (i < m) then up h2 i else Return h2 ()) = Return h3 () \<and>
        comparator h3 = cmp \<and> length (items h3) = length ?xs \<and> mset (items h3) = mset ?xs \<and>
        item_at (items h3) n = item_at ?xs i"
    proof (cases "i < m")
      case True
      then show ?thesis using h1 h2 by simp
    next
      case False
      have "\<exists>h'. up h2 i = Return h' () \<and> comparator h' = cmp \<and>
         length (items h') = length (items h2) \<and> mset (items h') = mset (items h2) \<and>
         (\<forall>c. n \<le> c \<longrightarrow> item_at (items h') c = item_at (items h2) c)"
        using up_returns[OF np' h2(1), of i n] i i_n h1 h2 by simp
      then show ?thesis using h1 h2 False by auto
    qed
    then obtain h3 where u: "(if \<not> (i < m) then up h2 i else Return h2 ()) = Return h3 ()"
      and h3: "comparator h3 = cmp" "length (items h3) = length ?xs" "mset (items h3) = mset ?xs"
        "item_at (items h3) n = item_at ?xs i"
      by blast
    have "items h3 \<noteq> []" "int (length (items h3)) - 1 = n"
      using h3 n by (auto simp: n_def)
    from pop_last[OF this(1)] this(2) show ?thesis
      using False Sw d u h3
      unfolding heap_Remove_def Let_def n(1) down_def by (auto simp: cmp_def)
  qed
qed

lemma heap_Pop_correct:
  assumes ho: "heap_order cmp" and c: "comparator h = cmp"
    and hp: "heap_upto (not_after cmp) (items h) (int (length (items h)))"
    and ne: "items h \<noteq> []"
  shows "\<exists>h'. heap_Pop h = Return h' (items h ! 0) \<and> comparator h' = cmp \<and>
     mset (items h') = mset (items h) - {#items h ! 0#} \<and>
     heap_upto (not_after cmp) (items h') (int (length (items h')))"
proof -
  let ?R = "not_after cmp"
  let ?xs = "items h"
  define n where "n = int (length ?xs) - 1"
  have n: "Len h - 1 = n" "0 \<le> n" "n < int (length ?xs)"
    using ne by (auto simp: Len_def n_def)
  define h1 where "h1 = h\<lparr>items := swapped ?xs 0 n\<rparr>"
  have Sw: "Swap h 0 n = Return h1 ()"
    using Swap_in_range[of 0 h n] n ne unfolding h1_def by simp
  have h1: "comparator h1 = cmp" "length (items h1) = length ?xs" "mset (items h1) = mset ?xs"
    "item_at (items h1) n = item_at ?xs 0" "n \<le> int (length (items h1))"
    using c n ne mset_swapped[of 0 ?xs n] item_at_swapped[of 0 ?xs n n]
    by (auto simp: h1_def length_swapped)
  have he: "heap_except ?R (items h1) n 0"
  proof (cases "n = 0")
    case True
    then show ?thesis unfolding heap_except_def by simp
  next
    case False
    have "heap_upto ?R ?xs (n + 1)" using hp by (simp add: n_def)
    then show ?thesis
      using heap_except_after_swap_last[of ?R ?xs n 0] heap_order_trans[OF ho] False n
      unfolding h1_def by simp
  qed
  obtain h2 m where d: "down_loop h1 0 n = Return h2 m" and p: "down_post ?R h1 0 n h2 m"
    using down_loop_correct[OF ho h1(1) _ h1(5) he] by auto
  have h2: "comparator h2 = cmp" "length (items h2) = length ?xs" "mset (items h2) = mset ?xs"
    "item_at (items h2) n = item_at ?xs 0" "heap_upto ?R (items h2) n"
    using p h1 heap_upto_iff[of ?R "items h2" n m] unfolding down_post_def parent_ok_def by auto
  have "items h2 \<noteq> []" "heap_upto ?R (items h2) (int (length (items h2)) - 1)"
    "int (length (items h2)) - 1 = n"
    using h2 n by (auto simp: n_def)
  from pop_after_sift[OF this(1,2)] this(3) show ?thesis
    using Sw d h2
    unfolding heap_Pop_def Let_def n(1) down_def by (auto simp: item_at_def)
qed

lemma heap_Pop_returns:
  assumes np: "never_panics (comparator h)" and ne: "items h \<noteq> []"
  shows "\<exists>h'. heap_Pop h = Return h' (items h ! 0) \<and> comparator h' = comparator h \<and>
     mset (items h') = mset (items h) - {#items h ! 0#}"
proof -
  let ?xs = "items h"
  define cmp where "cmp = comparator h"
  define n where "n = int (length ?xs) - 1"
  have n: "Len h - 1 = n" "0 \<le> n" "n < int (length ?xs)"
    using ne by (auto simp: Len_def n_def)
  define h1 where "h1 = h\<lparr>items := swapped ?xs 0 n\<rparr>"
  have Sw: "Swap h 0 n = Return h1 ()"
    using Swap_in_range[of 0 h n] n ne unfolding h1_def by simp
  have h1: "comparator h1 = cmp" "length (items h1) = length ?xs" "mset (items h1) = mset ?xs"
    "item_at (items h1) n = item_at ?xs 0" "n \<le> int (length (items h1))"
    using n ne mset_swapped[of 0 ?xs n] item_at_swapped[of 0 ?xs n n]
    by (auto simp: h1_def length_swapped cmp_def)
  have np': "never_panics cmp" using np by (simp add: cmp_def)
  obtain h2 m where d: "down_loop h1 0 n = Return h2 m" and h2: "comparator h2 = cmp"
      "length (items h2) = length (items h1)" "mset (items h2) = mset (items h1)"
      "\<forall>c. n \<le> c \<longrightarrow> item_at (items h2) c = item_at (items h1) c"
    using down_loop_returns[OF np' h1(1) order_refl h1(5)] by blast
  have "items h2 \<noteq> []" "int (length (items h2)) - 1 = n"
    using h1 h2 n by (auto simp: n_def)
  from pop_last[OF this(1)] this(2) show ?thesis
    using Sw d h1 h2
    unfolding heap_Pop_def Let_def n(1) down_def by (auto simp: item_at_def cmp_def)
qed

lemma heap_Pop_empty: "items h = [] \<Longrightarrow> heap_Pop h = Panic h IndexOutOfRange"
  by (simp add: heap_Pop_def Swap_def index_def Len_def)

lemma heap_Init_empty: "items h = [] \<Longrightarrow> heap_Init h = Return h ()"
  by (simp add: heap_Init_def Len_def Init_loop.simps)

subsection \<open>The operations of the queue\<close>

lemma apply_options_keeps:
  "apply_options opts pq = Inr pq' \<Longrightarrow> items (heap pq) = [] \<Longrightarrow> items (heap pq') = []"
proof (induction opts arbitrary: pq)
  case Nil
  then show ?case by simp
next
  case (Cons opt opts)
  then show ?case
    by (cases opt) (auto split: sum.splits if_splits)
qed

lemma apply_options_comparator:
  "apply_options opts pq = Inr pq' \<Longrightarrow> \<forall>opt \<in> set opts. \<not> is_WithComparator opt \<Longrightarrow>
   comparator (heap pq') = comparator (heap pq)"
proof (induction opts arbitrary: pq)
  case Nil
  then show ?case by simp
next
  case (Cons opt opts)
  then show ?case
    by (cases opt) (auto split: sum.splits if_splits)
qed

lemma New_result:
  assumes "New T opts = Inr pq"
  shows "items (heap pq) = []"
    and "\<forall>opt \<in> set opts. \<not> is_WithComparator opt \<Longrightarrow> comparator (heap pq) = DefaultComparator T"
proof -
  let ?q0 = "\<lparr>heap = \<lparr>items = [], comparator = DefaultComparator T\<rparr>, equals = None\<rparr>"
  obtain q1 where q1: "apply_options opts ?q0 = Inr q1"
    using assms by (auto simp: New_def split: sum.splits)
  have e: "items (heap q1) = []" using apply_options_keeps[OF q1] by simp
  then have "pq = q1" using assms q1 heap_Init_empty[of "heap q1"] by (simp add: New_def)
  then show "items (heap pq) = []" using e by simp
  show "comparator (heap pq) = DefaultComparator T" if "\<forall>opt \<in> set opts. \<not> is_WithComparator opt"
    using apply_options_comparator[OF q1 that] \<open>pq = q1\<close> by simp
qed

lemma New_ok:
  assumes "New T opts = Inr pq"
  shows "queue_ok (Comparator pq) pq"
  using New_result(1)[OF assms] by (auto simp: queue_ok_def Comparator_def heap_upto_def)

lemma contains_loop_none:
  "\<forall>v \<in> set xs. matches v = Inr False \<Longrightarrow> contains_loop matches xs = Inr False"
  by (induction xs) auto

lemma contains_loop_found:
  "\<forall>v \<in> set ys. matches v = Inr False \<Longrightarrow> matches w = Inr True \<Longrightarrow>
     contains_loop matches (ys @ w # zs) = Inr True"
  by (induction ys) auto

lemma contains_loop_fault:
  "\<forall>v \<in> set ys. matches v = Inr False \<Longrightarrow> matches w = Inl e \<Longrightarrow>
     contains_loop matches (ys @ w # zs) = Inl e"
  by (induction ys) auto

lemma first_match_none:
  "\<forall>v \<in> set xs. matches v = Inr False \<Longrightarrow> first_match matches xs k = Inr None"
  by (induction xs arbitrary: k) auto

lemma first_match_found:
  "\<forall>v \<in> set ys. matches v = Inr False \<Longrightarrow> matches w = Inr True \<Longrightarrow>
     first_match matches (ys @ w # zs) k = Inr (Some (k + int (length ys)))"
  by (induction ys arbitrary: k) auto

lemma first_match_fault:
  "\<forall>v \<in> set ys. matches v = Inr False \<Longrightarrow> matches w = Inl e \<Longrightarrow>
     first_match matches (ys @ w # zs) k = Inl e"
  by (induction ys arbitrary: k) auto

lemma first_match_Some:
  "first_match matches xs k = Inr (Some i) \<Longrightarrow> k \<le> i \<and> i < k + int (length xs)"
proof (induction xs arbitrary: k)
  case Nil
  then show ?case by simp
next
  case (Cons v vs)
  show ?case
  proof (cases "matches v = Inr False")
    case True
    then have "first_match matches vs (k + 1) = Inr (Some i)" using Cons.prems by simp
    from Cons.IH[OF this] show ?thesis by simp
  next
    case False
    then show ?thesis using Cons.prems by (auto split: sum.splits if_splits)
  qed
qed

lemma remove_loop_cases:
  assumes np: "never_panics (comparator (heap pq))"
  shows "(\<exists>e. remove_loop matches pq = Panic pq e) \<or>
     remove_loop matches pq = Return pq False \<or>
     (\<exists>pq' w. remove_loop matches pq = Return pq' True \<and>
        comparator (heap pq') = comparator (heap pq) \<and> equals pq' = equals pq \<and>
        w \<in> set (items (heap pq)) \<and>
        mset (items (heap pq')) = mset (items (heap pq)) - {#w#})"
proof (cases "first_match matches (items (heap pq)) 0")
  case (Inl e)
  then show ?thesis by (simp add: remove_loop_def)
next
  case (Inr r)
  show ?thesis
  proof (cases r)
    case None
    then show ?thesis using Inr by (simp add: remove_loop_def)
  next
    case (Some i)
    from first_match_Some[of matches "items (heap pq)" 0 i] Inr Some
    have i: "0 \<le> i" "i < int (length (items (heap pq)))" by simp_all
    have mem: "item_at (items (heap pq)) i \<in> set (items (heap pq))"
      using i by (simp add: item_at_def nat_less_iff)
    obtain h' where "heap_Remove (heap pq) i = Return h' (item_at (items (heap pq)) i)"
      "comparator h' = comparator (heap pq)"
      "mset (items h') = mset (items (heap pq)) - {#item_at (items (heap pq)) i#}"
      using heap_Remove_returns[OF np i] by blast
    then have "remove_loop matches pq = Return (pq\<lparr>heap := h'\<rparr>) True \<and>
        comparator (heap (pq\<lparr>heap := h'\<rparr>)) = comparator (heap pq) \<and>
        equals (pq\<lparr>heap := h'\<rparr>) = equals pq \<and>
        item_at (items (heap pq)) i \<in> set (items (heap pq)) \<and>
        mset (items (heap (pq\<lparr>heap := h'\<rparr>))) =
          mset (items (heap pq)) - {#item_at (items (heap pq)) i#}"
      using Inr Some mem by (simp add: remove_loop_def)
    then show ?thesis by blast
  qed
qed

lemma remove_loop_found:
  assumes np: "never_panics (comparator (heap pq))"
    and xs: "items (heap pq) = ys @ w # zs"
    and pre: "\<forall>v \<in> set ys. matches v = Inr False"
    and w: "matches w = Inr True"
  shows "\<exists>pq'. remove_loop matches pq = Return pq' True \<and>
     mset (items (heap pq')) = mset (items (heap pq)) - {#w#}"
proof -
  have f: "first_match matches (items (heap pq)) 0 = Inr (Some (int (length ys)))"
    using first_match_found[OF pre w, of zs 0] xs by simp
  have i: "0 \<le> int (length ys)" "int (length ys) < int (length (items (heap pq)))"
    using xs by simp_all
  have at: "item_at (items (heap pq)) (int (length ys)) = w"
    using xs by (simp add: item_at_def)
  obtain h' where "heap_Remove (heap pq) (int (length ys)) = Return h' w"
    "mset (items h') = mset (items (heap pq)) - {#w#}"
    using heap_Remove_returns[OF np i] at by auto
  then have "remove_loop matches pq = Return (pq\<lparr>heap := h'\<rparr>) True \<and>
     mset (items (heap (pq\<lparr>heap := h'\<rparr>))) = mset (items (heap pq)) - {#w#}"
    using f by (simp add: remove_loop_def)
  then show ?thesis by blast
qed

lemma remove_loop_ok:
  assumes ho: "heap_order cmp" and ok: "queue_ok cmp pq"
  shows "(\<exists>e. remove_loop matches pq = Panic pq e) \<or>
     (\<exists>pq' b. remove_loop matches pq = Return pq' b \<and> queue_ok cmp pq')"
proof (cases "first_match matches (items (heap pq)) 0")
  case (Inl e)
  then show ?thesis by (simp add: remove_loop_def)
next
  case (Inr r)
  show ?thesis
  proof (cases r)
    case None
    then have "remove_loop matches pq = Return pq False" using Inr by (simp add: remove_loop_def)
    then show ?thesis using ok by blast
  next
    case (Some i)
    from first_match_Some[of matches "items (heap pq)" 0 i] Inr Some
    have i: "0 \<le> i" "i < int (length (items (heap pq)))" by simp_all
    show ?thesis
      using heap_Remove_correct[OF ho _ _ i] ok Inr Some
      by (auto simp: remove_loop_def queue_ok_def)
  qed
qed

lemma Offer_ok:
  assumes ho: "heap_order cmp" and ok: "queue_ok cmp pq"
  shows "\<exists>pq'. Offer T pq x = (pq', True) \<and> queue_ok cmp pq' \<and> equals pq' = equals pq \<and>
     mset (items (heap pq')) =
       (if to_any T x = DNil then mset (items (heap pq)) else mset (items (heap pq)) + {#x#})"
proof (cases "to_any T x = DNil")
  case True
  then show ?thesis
    using heap_Push_nil[OF ho, of "heap pq" T x] ok by (simp add: Offer_def queue_ok_def)
next
  case False
  then show ?thesis
    using heap_Push_correct[OF ho, of "heap pq" T x] ok by (auto simp: Offer_def queue_ok_def)
qed

lemma Poll_ok:
  assumes ho: "heap_order cmp" and ok: "queue_ok cmp pq" and ne: "items (heap pq) \<noteq> []"
  shows "\<exists>pq' r. Poll T pq = Return pq' r \<and> queue_ok cmp pq' \<and> equals pq' = equals pq \<and>
     r = (if to_any T (items (heap pq) ! 0) = DNil then zero_value T else items (heap pq) ! 0) \<and>
     mset (items (heap pq')) = mset (items (heap pq)) - {#items (heap pq) ! 0#}"
  using heap_Pop_correct[OF ho _ _ ne] ok by (auto simp: Poll_def queue_ok_def)

lemma exec_ok:
  assumes ho: "heap_order cmp" and ok: "queue_ok cmp pq"
  shows "queue_ok cmp (fst (exec T op pq))"
proof (cases op)
  case (OpAdd x)
  then show ?thesis using Offer_ok[OF ho ok, of T x] by (auto simp: Add_def)
next
  case (OpOffer x)
  then show ?thesis using Offer_ok[OF ho ok, of T x] by auto
next
  case OpPoll
  show ?thesis
  proof (cases "items (heap pq) = []")
    case True
    then show ?thesis using OpPoll ok heap_Pop_empty[of "heap pq"] by (simp add: Poll_def)
  next
    case False
    then show ?thesis using OpPoll Poll_ok[OF ho ok False, of T] by auto
  qed
next
  case (OpRemove x)
  have r: "queue_ok cmp (fst (case remove_loop m pq of
       Return pq' b \<Rightarrow> (pq', Flag b) | Panic pq' e \<Rightarrow> (pq', Panicked e)))" for m
    using remove_loop_ok[OF ho ok, of m] ok by auto
  show ?thesis
    using OpRemove r ok
    by (auto simp: Remove_def split: sum.splits option.splits)
qed

lemma run_ok:
  assumes ho: "heap_order cmp"
  shows "queue_ok cmp pq \<Longrightarrow> queue_ok cmp (fst (run T ops pq))"
proof (induction ops arbitrary: pq)
  case Nil
  then show ?case by simp
next
  case (Cons op ops)
  have "queue_ok cmp (fst (exec T op pq))" using exec_ok[OF ho Cons.prems] .
  from Cons.IH[OF this] show ?case by (auto split: prod.splits)
qed

lemma no_nil_mset:
  assumes "no_nil T pq" "mset (items (heap pq')) \<subseteq># mset (items (heap pq))"
  shows "no_nil T pq'"
  unfolding no_nil_def
proof
  fix v assume "v \<in> set (items (heap pq'))"
  then have "v \<in># mset (items (heap pq))" using assms(2) by (metis mset_subset_eqD set_mset_mset)
  then show "to_any T v \<noteq> DNil" using assms(1) by (simp add: no_nil_def)
qed

lemma exec_no_nil:
  assumes ho: "heap_order cmp" and ok: "queue_ok cmp pq" and nn: "no_nil T pq"
  shows "no_nil T (fst (exec T op pq))"
proof (cases op)
  case (OpOffer x)
  obtain pq' where o: "Offer T pq x = (pq', True)"
    "mset (items (heap pq')) =
       (if to_any T x = DNil then mset (items (heap pq)) else mset (items (heap pq)) + {#x#})"
    using Offer_ok[OF ho ok, of T x] by blast
  have "no_nil T pq'"
    unfolding no_nil_def
  proof
    fix v assume "v \<in> set (items (heap pq'))"
    then have "v \<in># mset (items (heap pq'))" by simp
    then have "v \<in> set (items (heap pq)) \<or> (v = x \<and> to_any T x \<noteq> DNil)"
      unfolding o(2) by (auto split: if_splits)
    then show "to_any T v \<noteq> DNil" using nn by (auto simp: no_nil_def)
  qed
  then show ?thesis using OpOffer o by simp
next
  case (OpAdd x)
  obtain pq' where o: "Offer T pq x = (pq', True)"
    "mset (items (heap pq')) =
       (if to_any T x = DNil then mset (items (heap pq)) else mset (items (heap pq)) + {#x#})"
    using Offer_ok[OF ho ok, of T x] by blast
  have "no_nil T pq'"
    unfolding no_nil_def
  proof
    fix v assume "v \<in> set (items (heap pq'))"
    then have "v \<in># mset (items (heap pq'))" by simp
    then have "v \<in> set (items (heap pq)) \<or> (v = x \<and> to_any T x \<noteq> DNil)"
      unfolding o(2) by (auto split: if_splits)
    then show "to_any T v \<noteq> DNil" using nn by (auto simp: no_nil_def)
  qed
  then show ?thesis using OpAdd o by (simp add: Add_def)
next
  case OpPoll
  show ?thesis
  proof (cases "items (heap pq) = []")
    case True
    then show ?thesis using OpPoll nn heap_Pop_empty[of "heap pq"] by (simp add: Poll_def)
  next
    case False
    obtain pq' r where "Poll T pq = Return pq' r"
      "mset (items (heap pq')) = mset (items (heap pq)) - {#items (heap pq) ! 0#}"
      using Poll_ok[OF ho ok False, of T] by blast
    then show ?thesis using OpPoll no_nil_mset[OF nn, of pq'] by simp
  qed
next
  case (OpRemove x)
  have np: "never_panics (comparator (heap pq))"
    using ho ok by (simp add: heap_order_def queue_ok_def)
  have r: "no_nil T (fst (case remove_loop m pq of
       Return pq' b \<Rightarrow> (pq', Flag b) | Panic pq' e \<Rightarrow> (pq', Panicked e)))" for m
  proof -
    consider e where "remove_loop m pq = Panic pq e"
      | "remove_loop m pq = Return pq False"
      | pq' w where "remove_loop m pq = Return pq' True"
          "mset (items (heap pq')) = mset (items (heap pq)) - {#w#}"
      using remove_loop_cases[OF np, of m] by blast
    then show ?thesis
    proof cases
      case 1
      then show ?thesis using nn by simp
    next
      case 2
      then show ?thesis using nn by simp
    next
      case 3
      have "mset (items (heap pq')) \<subseteq># mset (items (heap pq))" using 3(2) by simp
      then show ?thesis using 3(1) no_nil_mset[OF nn] by simp
    qed
  qed
  show ?thesis
    using OpRemove r nn
    by (auto simp: Remove_def split: sum.splits option.splits)
qed

lemma run_no_nil:
  assumes ho: "heap_order cmp"
  shows "queue_ok cmp pq \<Longrightarrow> no_nil T pq \<Longrightarrow> no_nil T (fst (run T ops pq))"
proof (induction ops arbitrary: pq)
  case Nil
  then show ?case by simp
next
  case (Cons op ops)
  have "queue_ok cmp (fst (exec T op pq))" "no_nil T (fst (exec T op pq))"
    using exec_ok[OF ho Cons.prems(1)] exec_no_nil[OF ho Cons.prems] by blast+
  from Cons.IH[OF this] show ?case by (auto split: prod.splits)
qed

lemma poll_until_empty_sorted:
  assumes ho: "heap_order cmp"
  shows "queue_ok cmp pq \<Longrightarrow> no_nil T pq \<Longrightarrow> length (items (heap pq)) = n \<Longrightarrow>
     \<exists>pq' ys. poll_until_empty n T pq = Some (Return pq' ys) \<and> items (heap pq') = [] \<and>
       mset ys = mset (items (heap pq)) \<and> sorted_wrt (not_after cmp) ys"
proof (induction n arbitrary: pq)
  case 0
  then show ?case by (simp add: Size_def)
next
  case (Suc n)
  let ?xs = "items (heap pq)"
  have ne: "?xs \<noteq> []" using Suc.prems by auto
  then have root: "?xs ! 0 \<in> set ?xs" by simp
  then have "to_any T (?xs ! 0) \<noteq> DNil" using Suc.prems(2) by (simp add: no_nil_def)
  then obtain pq1 where p: "Poll T pq = Return pq1 (?xs ! 0)" "queue_ok cmp pq1"
    "mset (items (heap pq1)) = mset ?xs - {#?xs ! 0#}"
    using Poll_ok[OF ho Suc.prems(1) ne, of T] by auto
  have sub: "mset (items (heap pq1)) \<subseteq># mset ?xs" using p(3) by simp
  have "size (mset (items (heap pq1))) = n"
    unfolding p(3) using Suc.prems(3) root by (simp add: size_Diff_singleton)
  then have len: "length (items (heap pq1)) = n" by simp
  obtain pq' ys where r: "poll_until_empty n T pq1 = Some (Return pq' ys)"
    "items (heap pq') = []" "mset ys = mset (items (heap pq1))" "sorted_wrt (not_after cmp) ys"
    using Suc.IH[OF p(2) no_nil_mset[OF Suc.prems(2) sub] len] by blast
  have hp: "heap_upto (not_after cmp) ?xs (int (length ?xs))"
    using Suc.prems(1) by (simp add: queue_ok_def)
  have "not_after cmp (?xs ! 0) y" if y: "y \<in> set ys" for y
  proof -
    have "y \<in># mset ?xs" using y r(3) sub by (metis mset_subset_eqD set_mset_mset)
    then obtain k where k: "k < length ?xs" "y = ?xs ! k"
      unfolding set_mset_mset in_set_conv_nth by blast
    show ?thesis
      unfolding k(2)
      by (rule root_least[OF heap_order_refl[OF ho] heap_order_trans[OF ho] hp k(1)])
  qed
  then have "sorted_wrt (not_after cmp) (?xs ! 0 # ys)" using r(4) by simp
  moreover have "mset (?xs ! 0 # ys) = mset ?xs" using r(3) p(3) root by simp
  moreover have "poll_until_empty (Suc n) T pq = Some (Return pq' (?xs ! 0 # ys))"
    using p(1) r(1) ne by (simp add: Size_def)
  ultimately show ?case using r(2) by blast
qed

text \<open>
  Apart from the nil interface value, and given an ordering function that returns for
  every pair, \<^verbatim>\<open>Offer\<close> returns true and the queue holds one element more, whatever its
  size; and the size of the queue follows the results of the operations.
\<close>

lemma Offer_inserts:
  assumes np: "never_panics (Comparator pq)"
  shows "\<exists>pq'. Offer T pq x = (pq', True) \<and> Comparator pq' = Comparator pq \<and>
     equals pq' = equals pq \<and>
     mset (items (heap pq')) =
       (if to_any T x = DNil then mset (items (heap pq)) else mset (items (heap pq)) + {#x#}) \<and>
     Size pq' = (if to_any T x = DNil then Size pq else Size pq + 1)"
proof -
  obtain h' where h: "heap_Push T (heap pq) x = Return h' ()"
    "comparator h' = comparator (heap pq)"
    "mset (items h') =
       (if to_any T x = DNil then mset (items (heap pq)) else mset (items (heap pq)) + {#x#})"
    using heap_Push_returns[of "heap pq" T x] np by (auto simp: Comparator_def)
  have "size (mset (items h')) =
     (if to_any T x = DNil then size (mset (items (heap pq))) else size (mset (items (heap pq))) + 1)"
    unfolding h(3) by simp
  then have "int (length (items h')) =
     (if to_any T x = DNil then int (length (items (heap pq))) else int (length (items (heap pq))) + 1)"
    by (simp split: if_splits)
  then show ?thesis
    using h by (simp add: Offer_def Comparator_def Size_def)
qed

lemma exec_size:
  assumes np: "never_panics (Comparator pq)" and nn: "\<not> inserts_nil T op"
  shows "Size (fst (exec T op pq)) = Size pq + net_change op (snd (exec T op pq)) \<and>
     Comparator (fst (exec T op pq)) = Comparator pq"
proof (cases op)
  case (OpAdd x)
  then show ?thesis using Offer_inserts[OF np, of T x] nn by (auto simp: Add_def)
next
  case (OpOffer x)
  then show ?thesis using Offer_inserts[OF np, of T x] nn by auto
next
  case OpPoll
  show ?thesis
  proof (cases "items (heap pq) = []")
    case True
    then show ?thesis using OpPoll heap_Pop_empty[of "heap pq"] by (simp add: Poll_def)
  next
    case False
    obtain h' where h: "heap_Pop (heap pq) = Return h' (items (heap pq) ! 0)"
      "comparator h' = comparator (heap pq)"
      "mset (items h') = mset (items (heap pq)) - {#items (heap pq) ! 0#}"
      using heap_Pop_returns[of "heap pq"] np False by (auto simp: Comparator_def)
    have "items (heap pq) ! 0 \<in># mset (items (heap pq))" using False by simp
    then have "size (mset (items h')) = size (mset (items (heap pq))) - 1"
      unfolding h(3) by (simp add: size_Diff_singleton)
    then have "int (length (items h')) = int (length (items (heap pq))) - 1"
      using False by (simp add: Suc_leI)
    then show ?thesis
      using OpPoll h by (simp add: Poll_def Comparator_def Size_def)
  qed
next
  case (OpRemove x)
  have np': "never_panics (comparator (heap pq))" using np by (simp add: Comparator_def)
  have r: "Size (fst (case remove_loop m pq of
       Return pq' b \<Rightarrow> (pq', Flag b) | Panic pq' e \<Rightarrow> (pq', Panicked e))) =
     Size pq + net_change (OpRemove x) (snd (case remove_loop m pq of
       Return pq' b \<Rightarrow> (pq', Flag b) | Panic pq' e \<Rightarrow> (pq', Panicked e))) \<and>
     Comparator (fst (case remove_loop m pq of
       Return pq' b \<Rightarrow> (pq', Flag b) | Panic pq' e \<Rightarrow> (pq', Panicked e))) = Comparator pq" for m
  proof -
    consider e where "remove_loop m pq = Panic pq e"
      | "remove_loop m pq = Return pq False"
      | pq' w where "remove_loop m pq = Return pq' True"
          "comparator (heap pq') = comparator (heap pq)"
          "w \<in> set (items (heap pq))"
          "mset (items (heap pq')) = mset (items (heap pq)) - {#w#}"
      using remove_loop_cases[OF np', of m] by blast
    then show ?thesis
    proof cases
      case 1
      then show ?thesis by simp
    next
      case 2
      then show ?thesis by simp
    next
      case 3
      have "size (mset (items (heap pq'))) = size (mset (items (heap pq))) - 1"
        unfolding 3(4) using 3(3) by (simp add: size_Diff_singleton)
      moreover have "0 < length (items (heap pq))" using 3(3) by (cases "items (heap pq)") auto
      ultimately have "int (length (items (heap pq'))) = int (length (items (heap pq))) - 1"
        by (simp add: Suc_leI)
      then show ?thesis using 3(1,2) by (simp add: Size_def Comparator_def)
    qed
  qed
  show ?thesis
    using OpRemove r
    by (auto simp: Remove_def split: sum.splits option.splits)
qed

lemma size_accounting:
  "never_panics (Comparator pq) \<Longrightarrow> \<forall>op \<in> set ops. \<not> inserts_nil T op \<Longrightarrow>
     Size (fst (run T ops pq)) = Size pq + sum_list (map2 net_change ops (snd (run T ops pq)))"
proof (induction ops arbitrary: pq)
  case Nil
  then show ?case by simp
next
  case (Cons op ops)
  obtain pq1 r where e: "exec T op pq = (pq1, r)" by (cases "exec T op pq")
  have s: "Size pq1 = Size pq + net_change op r" "Comparator pq1 = Comparator pq"
    using exec_size[OF Cons.prems(1), of T op] Cons.prems(2) e by auto
  have "Size (fst (run T ops pq1)) =
     Size pq1 + sum_list (map2 net_change ops (snd (run T ops pq1)))"
    using Cons.IH[of pq1] Cons.prems s(2) by simp
  then show ?case using e s(1) by (auto split: prod.splits)
qed

text \<open>The equations that evaluate the operations on a concrete queue.\<close>

lemmas eval_defs = Add_def Offer_def Poll_def Remove_def remove_loop_def heap_Push_def heap_Pop_def
  heap_Remove_def internalHeap_Push_def internalHeap_Pop_def up.simps down_loop.simps down_def
  Swap_def Less_def index_def Len_def Let_def signed_divide_int_def reflect_Comparable_def
  reflect_eq_def word_sless_alt

section \<open>The claims\<close>

subsection \<open>The empty queue\<close>

text \<open>
  Claim C1 says that \<^verbatim>\<open>Poll\<close> and \<^verbatim>\<open>Peek\<close> on an empty queue raise no fault and return the
  zero value of the element type. \<^verbatim>\<open>Peek\<close> tests the length first and does so. \<^verbatim>\<open>Poll\<close>
  does not: \<^verbatim>\<open>heap.Pop\<close> is called without a test for emptiness, and its first step
  \<^verbatim>\<open>h.Swap(0, -1)\<close> indexes the empty slice. The check \<^verbatim>\<open>item == nil\<close> that was to handle the
  empty queue is never reached. So for every element type and every queue without
  elements (the freshly constructed one among them) \<^verbatim>\<open>Poll\<close> panics with an index out
  of range, and leaves the queue as it was.
\<close>

theorem Poll_on_empty_queue_panics:
  "New int_type [] = Inr \<lparr>heap = \<lparr>items = [], comparator = DefaultComparator int_type\<rparr>, equals = None\<rparr> \<and>
   Poll T (pq\<lparr>heap := (heap pq)\<lparr>items := []\<rparr>\<rparr>) =
     Panic (pq\<lparr>heap := (heap pq)\<lparr>items := []\<rparr>\<rparr>) IndexOutOfRange \<and>
   Peek T (pq\<lparr>heap := (heap pq)\<lparr>items := []\<rparr>\<rparr>) =
     (pq\<lparr>heap := (heap pq)\<lparr>items := []\<rparr>\<rparr>, zero_value T)"
  by (simp add: New_def heap_Init_empty Poll_def heap_Pop_def Swap_def index_def Len_def Peek_def)

subsection \<open>The heap property\<close>

text \<open>
  Claim C2. Take a freshly constructed queue whose ordering function is a valid strict
  weak ordering, and any sequence of \<^verbatim>\<open>Add\<close>, \<^verbatim>\<open>Offer\<close>, \<^verbatim>\<open>Poll\<close> and \<^verbatim>\<open>Remove\<close> calls (a call
  that panics, such as \<^verbatim>\<open>Poll\<close> on the empty queue, included). The queue keeps its
  ordering function, and its backing slice has the min-heap property: every element is
  less than or equal to its children at \<open>2 i + 1\<close> and \<open>2 i + 2\<close>.
\<close>

theorem heap_property_reachable:
  "New T opts = Inr q0 \<and> valid_ordering (Comparator q0) \<longrightarrow>
     Comparator (fst (run T ops q0)) = Comparator q0 \<and>
     heap_property (Comparator q0) (items (heap (fst (run T ops q0))))"
proof
  assume a: "New T opts = Inr q0 \<and> valid_ordering (Comparator q0)"
  then have ho: "heap_order (Comparator q0)" using valid_ordering_heap_order by blast
  have "queue_ok (Comparator q0) (fst (run T ops q0))"
    using run_ok[OF ho New_ok] a by blast
  then show "Comparator (fst (run T ops q0)) = Comparator q0 \<and>
     heap_property (Comparator q0) (items (heap (fst (run T ops q0))))"
    using heap_property_upto a by (auto simp: queue_ok_def Comparator_def)
qed

text \<open>
  The theorem at a queue of ints ordered by comparison, after five insertions, a poll and
  a removal: the slice is \<open>[2, 4, 7, 9]\<close>.
\<close>

theorem heap_property_reachable_witness:
  "New int_type [WithComparator compare_ints] =
     Inr \<lparr>heap = \<lparr>items = [], comparator = compare_ints\<rparr>, equals = None\<rparr> \<and>
   valid_ordering compare_ints \<and>
   items (heap (fst (run int_type
       [OpAdd 5, OpOffer 9, OpAdd 2, OpAdd 7, OpAdd 4, OpPoll, OpAdd 2, OpRemove 5]
       \<lparr>heap = \<lparr>items = [], comparator = compare_ints\<rparr>, equals = None\<rparr>))) = [2, 4, 7, 9] \<and>
   heap_property compare_ints [2, 4, 7, 9]"
proof -
  let ?q = "\<lparr>heap = \<lparr>items = [], comparator = compare_ints\<rparr>, equals = None\<rparr>"
  let ?ops = "[OpAdd 5, OpOffer 9, OpAdd 2, OpAdd 7, OpAdd 4, OpPoll, OpAdd 2, OpRemove 5]"
  have n: "New int_type [WithComparator compare_ints] = Inr ?q"
    by (simp add: New_def heap_Init_empty)
  have c: "Comparator ?q = compare_ints" by (simp add: Comparator_def)
  have r: "items (heap (fst (run int_type ?ops ?q))) = [2, 4, 7, 9]"
    by (simp add: eval_defs int_type_def compare_ints_def)
  have "heap_property compare_ints (items (heap (fst (run int_type ?ops ?q))))"
    using heap_property_reachable[of int_type "[WithComparator compare_ints]" ?q ?ops]
      n valid_compare_ints c by simp
  then show ?thesis using n r valid_compare_ints by simp
qed

subsection \<open>Polling until the queue is empty\<close>

text \<open>
  Claim C3. Take a freshly constructed queue whose ordering function is a valid strict
  weak ordering, and any sequence of operations on it (insertions in particular). Then
  polling until the queue is empty ends, after as many polls as the queue has
  elements, and yields the elements of the queue in non-decreasing order: each is less
  than or equal to all that follow it. And on an int queue with the default ordering,
  after inserting 3, 2 and 1, three polls return 1, 2 and 3.
\<close>

theorem Poll_yields_sorted:
  "(New T opts = Inr q0 \<and> valid_ordering (Comparator q0) \<and> q = fst (run T ops q0) \<longrightarrow>
      (\<exists>q' ys. poll_until_empty (nat (Size q)) T q = Some (Return q' ys) \<and> Size q' = 0 \<and>
         mset ys = mset (items (heap q)) \<and> sorted_wrt (leq (Comparator q0)) ys)) \<and>
   New int_type [] =
     Inr \<lparr>heap = \<lparr>items = [], comparator = DefaultComparator int_type\<rparr>, equals = None\<rparr> \<and>
   run int_type [OpAdd 3, OpAdd 2, OpAdd 1, OpPoll, OpPoll, OpPoll]
     \<lparr>heap = \<lparr>items = [], comparator = DefaultComparator int_type\<rparr>, equals = None\<rparr> =
     (\<lparr>heap = \<lparr>items = [], comparator = DefaultComparator int_type\<rparr>, equals = None\<rparr>,
      [Flag True, Flag True, Flag True, Element 1, Element 2, Element 3])"
proof (intro conjI impI)
  assume a: "New T opts = Inr q0 \<and> valid_ordering (Comparator q0) \<and> q = fst (run T ops q0)"
  let ?cmp = "Comparator q0"
  have v: "valid_ordering ?cmp" using a by simp
  have ho: "heap_order ?cmp" using v by (rule valid_ordering_heap_order)
  have q0: "queue_ok ?cmp q0" "no_nil T q0"
    using a New_ok[of T opts q0] New_result(1)[of T opts q0] by (simp_all add: no_nil_def)
  have q: "queue_ok ?cmp q" "no_nil T q"
    using run_ok[OF ho q0(1)] run_no_nil[OF ho q0] a by simp_all
  have "nat (Size q) = length (items (heap q))" by (simp add: Size_def)
  then obtain q' ys where "poll_until_empty (nat (Size q)) T q = Some (Return q' ys)"
    "items (heap q') = []" "mset ys = mset (items (heap q))" "sorted_wrt (not_after ?cmp) ys"
    using poll_until_empty_sorted[OF ho q, of "nat (Size q)"] by auto
  moreover have "leq ?cmp = not_after ?cmp"
    using valid_ordering_leq[OF v] by (intro ext) simp
  ultimately show "\<exists>q' ys. poll_until_empty (nat (Size q)) T q = Some (Return q' ys) \<and> Size q' = 0 \<and>
         mset ys = mset (items (heap q)) \<and> sorted_wrt (leq ?cmp) ys"
    by (auto simp: Size_def)
next
  show "New int_type [] =
     Inr \<lparr>heap = \<lparr>items = [], comparator = DefaultComparator int_type\<rparr>, equals = None\<rparr>"
    by (simp add: New_def heap_Init_empty)
next
  show "run int_type [OpAdd 3, OpAdd 2, OpAdd 1, OpPoll, OpPoll, OpPoll]
     \<lparr>heap = \<lparr>items = [], comparator = DefaultComparator int_type\<rparr>, equals = None\<rparr> =
     (\<lparr>heap = \<lparr>items = [], comparator = DefaultComparator int_type\<rparr>, equals = None\<rparr>,
      [Flag True, Flag True, Flag True, Element 1, Element 2, Element 3])"
    by (simp add: eval_defs int_type_def DefaultComparator_def)
qed

text \<open>
  The theorem at a queue of ints ordered by comparison, after inserting 5, 3, 8 and 1:
  polling until empty yields \<open>[1, 3, 5, 8]\<close>, which the theorem says is sorted.
\<close>

theorem Poll_yields_sorted_witness:
  "New int_type [WithComparator compare_ints] =
     Inr \<lparr>heap = \<lparr>items = [], comparator = compare_ints\<rparr>, equals = None\<rparr> \<and>
   valid_ordering compare_ints \<and>
   fst (run int_type [OpAdd 5, OpAdd 3, OpOffer 8, OpAdd 1]
     \<lparr>heap = \<lparr>items = [], comparator = compare_ints\<rparr>, equals = None\<rparr>) =
     \<lparr>heap = \<lparr>items = [1, 3, 8, 5], comparator = compare_ints\<rparr>, equals = None\<rparr> \<and>
   poll_until_empty 4 int_type
     \<lparr>heap = \<lparr>items = [1, 3, 8, 5], comparator = compare_ints\<rparr>, equals = None\<rparr> =
     Some (Return \<lparr>heap = \<lparr>items = [], comparator = compare_ints\<rparr>, equals = None\<rparr> [1, 3, 5, 8]) \<and>
   sorted_wrt (leq compare_ints) [1, 3, 5, 8]"
proof -
  let ?start = "\<lparr>heap = \<lparr>items = [], comparator = compare_ints\<rparr>, equals = None\<rparr>"
  let ?built = "\<lparr>heap = \<lparr>items = [1, 3, 8, 5], comparator = compare_ints\<rparr>, equals = None\<rparr>"
  let ?ops = "[OpAdd 5, OpAdd 3, OpOffer 8, OpAdd 1]"
  have n: "New int_type [WithComparator compare_ints] = Inr ?start"
    by (simp add: New_def heap_Init_empty)
  have c: "Comparator ?start = compare_ints"
    by (simp add: Comparator_def)
  have r: "fst (run int_type ?ops ?start) = ?built"
    by (simp add: eval_defs int_type_def compare_ints_def)
  have s: "nat (Size ?built) = 4" by (simp add: Size_def)
  have p: "poll_until_empty 4 int_type ?built = Some (Return ?start [1, 3, 5, 8])"
    by (simp add: eval_defs int_type_def compare_ints_def Size_def eval_nat_numeral)
  have "\<exists>q' ys. poll_until_empty (nat (Size ?built)) int_type ?built = Some (Return q' ys) \<and> Size q' = 0 \<and>
         mset ys = mset (items (heap ?built)) \<and> sorted_wrt (leq (Comparator ?start)) ys"
    using Poll_yields_sorted[of int_type "[WithComparator compare_ints]" ?start ?built ?ops]
      n c r valid_compare_ints by simp
  then have "sorted_wrt (leq compare_ints) [1, 3, 5, 8]"
    unfolding s p c by simp
  then show ?thesis using n r p valid_compare_ints by simp
qed

subsection \<open>Contains and Remove\<close>

text \<open>
  Claim C4, as amended. Whether native equality is available is decided for the item
  that is passed, by reflection on its dynamic type. When that type is not comparable
  and no equality function was configured, \<^verbatim>\<open>Contains\<close> and \<^verbatim>\<open>Remove\<close> raise the
  configuration fault, whatever the queue holds (so also when it is empty), and
  \<^verbatim>\<open>Remove\<close> leaves the queue as it is.

  When the type is comparable, or it is not and an equality function was configured,
  the elements are compared with the item in the order of the slice (by \<^verbatim>\<open>==\<close> on
  the interface values in the first case, by the configured function in the second),
  up to the first element for which the comparison does not return false:
  \<^item> when the comparison returns false for every element, no fault is raised, both
    operations return false and \<^verbatim>\<open>Remove\<close> leaves the queue as it is;
  \<^item> when it returns true for that element, \<^verbatim>\<open>Contains\<close> returns true and \<^verbatim>\<open>Remove\<close>, given
    that the ordering function returns for every pair, returns true and removes that
    element;
  \<^item> when it panics for that element (as \<^verbatim>\<open>==\<close> does on two values of one dynamic type
    that hold values of a type that is not comparable), both operations raise that
    panic and \<^verbatim>\<open>Remove\<close> leaves the queue as it is.

  For an element type that is not an interface type the dynamic type of every item is
  the element type.
\<close>

theorem Contains_Remove_equality:
  "(reflect_Comparable T item = Inr False \<and> equals pq = None \<longrightarrow>
      Contains T pq item = Inl NotComparableNoEquals \<and>
      Remove T pq item = Panic pq NotComparableNoEquals) \<and>
   (reflect_Comparable T item = Inr True \<and> matches = (\<lambda>v. reflect_eq T v item) \<or>
    reflect_Comparable T item = Inr False \<and> equals pq = Some eq \<and>
      matches = (\<lambda>v. Inr (eq v item)) \<longrightarrow>
      ((\<forall>v \<in> set (items (heap pq)). matches v = Inr False) \<longrightarrow>
         Contains T pq item = Inr False \<and> Remove T pq item = Return pq False) \<and>
      (items (heap pq) = ys @ w # zs \<and> (\<forall>v \<in> set ys. matches v = Inr False) \<longrightarrow>
         (matches w = Inr True \<longrightarrow>
            Contains T pq item = Inr True \<and>
            (never_panics (Comparator pq) \<longrightarrow>
               (\<exists>pq'. Remove T pq item = Return pq' True \<and>
                  mset (items (heap pq')) = mset (items (heap pq)) - {#w#}))) \<and>
         (matches w = Inl e \<longrightarrow>
            Contains T pq item = Inl e \<and> Remove T pq item = Panic pq e)))"
proof (intro conjI impI)
  assume "reflect_Comparable T item = Inr False \<and> equals pq = None"
  then show "Contains T pq item = Inl NotComparableNoEquals"
    and "Remove T pq item = Panic pq NotComparableNoEquals"
    by (simp_all add: Contains_def Remove_def)
next
  assume a: "reflect_Comparable T item = Inr True \<and> matches = (\<lambda>v. reflect_eq T v item) \<or>
    reflect_Comparable T item = Inr False \<and> equals pq = Some eq \<and>
      matches = (\<lambda>v. Inr (eq v item))"
  have c: "Contains T pq item = contains_loop matches (items (heap pq))"
    using a by (auto simp: Contains_def)
  have r: "Remove T pq item = remove_loop matches pq"
    using a by (auto simp: Remove_def)
  {
    assume none: "\<forall>v \<in> set (items (heap pq)). matches v = Inr False"
    show "Contains T pq item = Inr False"
      using c contains_loop_none[OF none] by simp
    show "Remove T pq item = Return pq False"
      using r first_match_none[OF none, of 0] by (simp add: remove_loop_def)
  }
  assume xs: "items (heap pq) = ys @ w # zs \<and> (\<forall>v \<in> set ys. matches v = Inr False)"
  then have pre: "\<forall>v \<in> set ys. matches v = Inr False" by simp
  {
    assume w: "matches w = Inr True"
    show "Contains T pq item = Inr True"
      using c xs contains_loop_found[OF pre w, of zs] by simp
    assume "never_panics (Comparator pq)"
    then have np: "never_panics (comparator (heap pq))" by (simp add: Comparator_def)
    show "\<exists>pq'. Remove T pq item = Return pq' True \<and>
        mset (items (heap pq')) = mset (items (heap pq)) - {#w#}"
      using r remove_loop_found[OF np _ pre w, of zs] xs by simp
  }
  {
    assume w: "matches w = Inl e"
    show "Contains T pq item = Inl e"
      using c xs contains_loop_fault[OF pre w, of zs] by simp
    show "Remove T pq item = Panic pq e"
      using r xs first_match_fault[OF pre w, of zs 0] by (simp add: remove_loop_def)
  }
qed

text \<open>
  The theorem at the element type \<^verbatim>\<open>[]int\<close>, which is not comparable: on the freshly
  constructed, empty queue without an equality function both operations raise the
  fault, and with an equality function \<^verbatim>\<open>Contains\<close> answers. On a queue of ints both
  operations answer, for an element of the queue and for another value. And on a
  queue of structs whose second element holds a slice, \<^verbatim>\<open>Contains\<close> and \<^verbatim>\<open>Remove\<close> of a
  struct holding a slice raise the panic of the comparison.
\<close>

theorem Contains_Remove_equality_witness:
  "New slice_type [] =
     Inr \<lparr>heap = \<lparr>items = [], comparator = DefaultComparator slice_type\<rparr>, equals = None\<rparr> \<and>
   Contains slice_type
     \<lparr>heap = \<lparr>items = [], comparator = DefaultComparator slice_type\<rparr>, equals = None\<rparr> [1] =
     Inl NotComparableNoEquals \<and>
   Remove slice_type
     \<lparr>heap = \<lparr>items = [], comparator = DefaultComparator slice_type\<rparr>, equals = None\<rparr> [1] =
     Panic \<lparr>heap = \<lparr>items = [], comparator = DefaultComparator slice_type\<rparr>, equals = None\<rparr>
       NotComparableNoEquals \<and>
   Contains slice_type
     \<lparr>heap = \<lparr>items = [[1], [2]], comparator = DefaultComparator slice_type\<rparr>,
      equals = Some (\<lambda>a b. a = b)\<rparr> [2] = Inr True \<and>
   Contains int_type \<lparr>heap = \<lparr>items = [1, 2, 3], comparator = compare_ints\<rparr>, equals = None\<rparr> 2 =
     Inr True \<and>
   (\<exists>pq'. Remove int_type \<lparr>heap = \<lparr>items = [1, 2, 3], comparator = compare_ints\<rparr>, equals = None\<rparr> 2 =
       Return pq' True \<and> mset (items (heap pq')) = {#1, 3#}) \<and>
   Contains int_type \<lparr>heap = \<lparr>items = [1, 2, 3], comparator = compare_ints\<rparr>, equals = None\<rparr> 7 =
     Inr False \<and>
   Remove int_type \<lparr>heap = \<lparr>items = [1, 2, 3], comparator = compare_ints\<rparr>, equals = None\<rparr> 7 =
     Return \<lparr>heap = \<lparr>items = [1, 2, 3], comparator = compare_ints\<rparr>, equals = None\<rparr> False \<and>
   Contains boxed_type
     \<lparr>heap = \<lparr>items = [Boxed (DInt 1), Boxed DOther], comparator = DefaultComparator boxed_type\<rparr>,
      equals = None\<rparr> (Boxed DOther) = Inl ComparingUncomparable \<and>
   Remove boxed_type
     \<lparr>heap = \<lparr>items = [Boxed (DInt 1), Boxed DOther], comparator = DefaultComparator boxed_type\<rparr>,
      equals = None\<rparr> (Boxed DOther) =
     Panic \<lparr>heap = \<lparr>items = [Boxed (DInt 1), Boxed DOther],
                    comparator = DefaultComparator boxed_type\<rparr>, equals = None\<rparr>
       ComparingUncomparable"
proof -
  let ?e = "\<lparr>heap = \<lparr>items = [], comparator = DefaultComparator slice_type\<rparr>, equals = None\<rparr>"
  let ?s = "\<lparr>heap = \<lparr>items = [[1], [2]], comparator = DefaultComparator slice_type\<rparr>,
      equals = Some (\<lambda>a b. a = (b :: go_int list))\<rparr>"
  let ?q = "\<lparr>heap = \<lparr>items = [1, 2, 3], comparator = compare_ints\<rparr>, equals = None\<rparr>"
  let ?b = "\<lparr>heap = \<lparr>items = [Boxed (DInt 1), Boxed DOther],
      comparator = DefaultComparator boxed_type\<rparr>, equals = None\<rparr>"
  have 0: "New slice_type [] = Inr ?e"
    by (simp add: New_def heap_Init_empty)
  have 1: "Contains slice_type ?e [1] = Inl NotComparableNoEquals"
    "Remove slice_type ?e [1] = Panic ?e NotComparableNoEquals"
    using Contains_Remove_equality[where T = slice_type and item = "[1]" and pq = ?e]
    by (simp_all add: reflect_Comparable_def slice_type_def)
  have 2: "Contains slice_type ?s [2] = Inr True"
    using Contains_Remove_equality[where T = slice_type and item = "[2]" and pq = ?s
        and matches = "\<lambda>v. Inr (v = [2])" and eq = "\<lambda>a b. a = b"
        and ys = "[[1]]" and w = "[2]" and zs = "[]"]
    by (simp add: reflect_Comparable_def slice_type_def)
  have np: "never_panics (Comparator ?q)"
    by (simp add: never_panics_def Comparator_def compare_ints_def)
  have 3: "Contains int_type ?q 2 = Inr True"
    "\<exists>pq'. Remove int_type ?q 2 = Return pq' True \<and> mset (items (heap pq')) = {#1, 3#}"
    using Contains_Remove_equality[where T = int_type and item = 2 and pq = ?q
        and matches = "\<lambda>v. Inr (v = 2)" and ys = "[1]" and w = 2 and zs = "[3]"] np
    by (auto simp: reflect_Comparable_def reflect_eq_def int_type_def)
  have 4: "Contains int_type ?q 7 = Inr False" "Remove int_type ?q 7 = Return ?q False"
    using Contains_Remove_equality[where T = int_type and item = 7 and pq = ?q
        and matches = "\<lambda>v. Inr (v = 7)"]
    by (auto simp: reflect_Comparable_def reflect_eq_def int_type_def)
  have 5: "Contains boxed_type ?b (Boxed DOther) = Inl ComparingUncomparable"
    "Remove boxed_type ?b (Boxed DOther) = Panic ?b ComparingUncomparable"
    using Contains_Remove_equality[where T = boxed_type and item = "Boxed DOther" and pq = ?b
        and matches = "\<lambda>v. boxed_eq v (Boxed DOther)" and ys = "[Boxed (DInt 1)]"
        and w = "Boxed DOther" and zs = "[]" and e = ComparingUncomparable]
    by (auto simp: reflect_Comparable_def reflect_eq_def boxed_type_def)
  from 0 1 2 3 4 5 show ?thesis by blast
qed

text \<open>
  Claim C4 as the specification states it, by the element type and without a fault
  when native equality is available, fails in three ways.
  \<^item> The element type \<^verbatim>\<open>any\<close> has native equality: on a queue without an equality
    function, \<^verbatim>\<open>Contains(1)\<close> answers. Yet on the same queue \<^verbatim>\<open>Contains\<close> of a value whose
    dynamic type is not comparable raises the configuration fault.
  \<^item> The element type \<^verbatim>\<open>struct{ V any }\<close> is comparable. On the queue constructed for
    it, after \<^verbatim>\<open>Add\<close> of a struct that holds a slice, \<^verbatim>\<open>Contains\<close> and \<^verbatim>\<open>Remove\<close> of such a
    struct raise the panic of the comparison.
  \<^item> For the nil interface value \<^verbatim>\<open>reflect.TypeOf(item)\<close> is nil and the call of
    \<^verbatim>\<open>Comparable\<close> panics, also when an equality function was configured.
\<close>

theorem Contains_Remove_any_counterexample:
  "New any_type [] =
     Inr \<lparr>heap = \<lparr>items = [], comparator = DefaultComparator any_type\<rparr>, equals = None\<rparr> \<and>
   Contains any_type
     \<lparr>heap = \<lparr>items = [DInt 1], comparator = DefaultComparator any_type\<rparr>, equals = None\<rparr>
     (DInt 1) = Inr True \<and>
   Contains any_type
     \<lparr>heap = \<lparr>items = [DInt 1], comparator = DefaultComparator any_type\<rparr>, equals = None\<rparr>
     DOther = Inl NotComparableNoEquals \<and>
   New boxed_type [] =
     Inr \<lparr>heap = \<lparr>items = [], comparator = DefaultComparator boxed_type\<rparr>, equals = None\<rparr> \<and>
   comparable boxed_type (Boxed DOther) \<and>
   run boxed_type [OpAdd (Boxed DOther)]
     \<lparr>heap = \<lparr>items = [], comparator = DefaultComparator boxed_type\<rparr>, equals = None\<rparr> =
     (\<lparr>heap = \<lparr>items = [Boxed DOther], comparator = DefaultComparator boxed_type\<rparr>,
        equals = None\<rparr>, [Flag True]) \<and>
   Contains boxed_type
     \<lparr>heap = \<lparr>items = [Boxed DOther], comparator = DefaultComparator boxed_type\<rparr>,
      equals = None\<rparr> (Boxed DOther) = Inl ComparingUncomparable \<and>
   Remove boxed_type
     \<lparr>heap = \<lparr>items = [Boxed DOther], comparator = DefaultComparator boxed_type\<rparr>,
      equals = None\<rparr> (Boxed DOther) =
     Panic \<lparr>heap = \<lparr>items = [Boxed DOther], comparator = DefaultComparator boxed_type\<rparr>,
            equals = None\<rparr> ComparingUncomparable \<and>
   New any_type [WithEquals (\<lambda>a b. a = b)] =
     Inr \<lparr>heap = \<lparr>items = [], comparator = DefaultComparator any_type\<rparr>,
          equals = Some (\<lambda>a b. a = b)\<rparr> \<and>
   Contains any_type
     \<lparr>heap = \<lparr>items = [], comparator = DefaultComparator any_type\<rparr>,
      equals = Some (\<lambda>a b. a = b)\<rparr> DNil = Inl NilPointerDereference \<and>
   Remove any_type
     \<lparr>heap = \<lparr>items = [], comparator = DefaultComparator any_type\<rparr>,
      equals = Some (\<lambda>a b. a = b)\<rparr> DNil =
     Panic \<lparr>heap = \<lparr>items = [], comparator = DefaultComparator any_type\<rparr>,
            equals = Some (\<lambda>a b. a = b)\<rparr> NilPointerDereference"
proof -
  have 1: "New any_type [] =
     Inr \<lparr>heap = \<lparr>items = [], comparator = DefaultComparator any_type\<rparr>, equals = None\<rparr>"
    "New boxed_type [] =
     Inr \<lparr>heap = \<lparr>items = [], comparator = DefaultComparator boxed_type\<rparr>, equals = None\<rparr>"
    "New any_type [WithEquals (\<lambda>a b. a = b)] =
     Inr \<lparr>heap = \<lparr>items = [], comparator = DefaultComparator any_type\<rparr>,
          equals = Some (\<lambda>a b. a = b)\<rparr>"
    by (simp_all add: New_def heap_Init_empty)
  have 2: "Contains any_type
     \<lparr>heap = \<lparr>items = [DInt 1], comparator = DefaultComparator any_type\<rparr>, equals = None\<rparr>
     (DInt 1) = Inr True"
    "Contains any_type
     \<lparr>heap = \<lparr>items = [DInt 1], comparator = DefaultComparator any_type\<rparr>, equals = None\<rparr>
     DOther = Inl NotComparableNoEquals"
    "Contains any_type
     \<lparr>heap = \<lparr>items = [], comparator = DefaultComparator any_type\<rparr>,
      equals = Some (\<lambda>a b. a = b)\<rparr> DNil = Inl NilPointerDereference"
    "Remove any_type
     \<lparr>heap = \<lparr>items = [], comparator = DefaultComparator any_type\<rparr>,
      equals = Some (\<lambda>a b. a = b)\<rparr> DNil =
     Panic \<lparr>heap = \<lparr>items = [], comparator = DefaultComparator any_type\<rparr>,
            equals = Some (\<lambda>a b. a = b)\<rparr> NilPointerDereference"
    by (simp_all add: Contains_def Remove_def reflect_Comparable_def reflect_eq_def any_type_def)
  have 3: "comparable boxed_type (Boxed DOther)"
    "run boxed_type [OpAdd (Boxed DOther)]
     \<lparr>heap = \<lparr>items = [], comparator = DefaultComparator boxed_type\<rparr>, equals = None\<rparr> =
     (\<lparr>heap = \<lparr>items = [Boxed DOther], comparator = DefaultComparator boxed_type\<rparr>,
        equals = None\<rparr>, [Flag True])"
    by (simp_all add: eval_defs boxed_type_def)
  have 4: "Contains boxed_type
     \<lparr>heap = \<lparr>items = [Boxed DOther], comparator = DefaultComparator boxed_type\<rparr>,
      equals = None\<rparr> (Boxed DOther) = Inl ComparingUncomparable"
    "Remove boxed_type
     \<lparr>heap = \<lparr>items = [Boxed DOther], comparator = DefaultComparator boxed_type\<rparr>,
      equals = None\<rparr> (Boxed DOther) =
     Panic \<lparr>heap = \<lparr>items = [Boxed DOther], comparator = DefaultComparator boxed_type\<rparr>,
            equals = None\<rparr> ComparingUncomparable"
    by (simp_all add: Contains_def Remove_def remove_loop_def reflect_Comparable_def
        reflect_eq_def boxed_type_def)
  from 1 2 3 4 show ?thesis by simp
qed

subsection \<open>The default ordering\<close>

text \<open>
  Claim C5, as amended. Without a \<^verbatim>\<open>WithComparator\<close> option the queue's ordering is the
  default ordering. The default ordering goes by the dynamic type of the values it is
  given: two ints are compared by (wrapping) subtraction; two float64 values give -1, 0
  or 1 by \<open><\<close> and \<open>>\<close>, which for finite values is the sign of their difference (and 0
  when one of them is NaN); two strings give -1, 0 or 1 by the lexicographic order of
  their bytes; and the result is 0 whenever the first value's dynamic type is none of
  int, float64 and string (or it is the nil interface). For an element type that is not
  an interface type the dynamic type is the element type.
\<close>

theorem DefaultComparator_by_dynamic_type:
  "((\<forall>opt \<in> set opts. \<not> is_WithComparator opt) \<and> New T opts = Inr pq \<longrightarrow>
      Comparator pq = DefaultComparator T) \<and>
   (to_any T a = DInt i \<and> to_any T b = DInt j \<longrightarrow> DefaultComparator T a b = Inr (i - j)) \<and>
   (to_any T a = DFloat64 x \<and> to_any T b = DFloat64 y \<longrightarrow>
      DefaultComparator T a b =
        Inr (if float64_less x y then - 1 else if float64_less y x then 1 else 0)) \<and>
   (to_any T a = DFloat64 (Finite u) \<and> to_any T b = DFloat64 (Finite v) \<longrightarrow>
      DefaultComparator T a b = Inr (sign (u - v))) \<and>
   (to_any T a = DString s \<and> to_any T b = DString t \<longrightarrow>
      DefaultComparator T a b =
        Inr (if (s, t) \<in> lexord byte_less then - 1
             else if (t, s) \<in> lexord byte_less then 1 else 0)) \<and>
   (to_any T a = DOther \<or> to_any T a = DNil \<longrightarrow> DefaultComparator T a b = Inr 0)"
proof (intro conjI impI)
  assume "(\<forall>opt \<in> set opts. \<not> is_WithComparator opt) \<and> New T opts = Inr pq"
  then show "Comparator pq = DefaultComparator T"
    using New_result(2)[of T opts pq] by (simp add: Comparator_def)
next
  assume "to_any T a = DString s \<and> to_any T b = DString t"
  then show "DefaultComparator T a b =
        Inr (if (s, t) \<in> lexord byte_less then - 1
             else if (t, s) \<in> lexord byte_less then 1 else 0)"
    using strings_Compare_lexord[of s t] by (simp add: DefaultComparator_def)
qed (auto simp: DefaultComparator_def sign_def)

text \<open>
  The theorem at a queue built with a capacity and an equality function only, and at
  concrete ints, floats, strings and other values.
\<close>

theorem DefaultComparator_by_dynamic_type_witness:
  "Comparator \<lparr>heap = \<lparr>items = [], comparator = DefaultComparator int_type\<rparr>, equals = Some (\<lambda>a b. a = b)\<rparr>
     = DefaultComparator int_type \<and>
   DefaultComparator int_type 3 5 = Inr (- 2) \<and>
   DefaultComparator any_type (DFloat64 (Finite 1)) (DFloat64 PosInf) = Inr (- 1) \<and>
   DefaultComparator any_type (DFloat64 NaN) (DFloat64 (Finite 1)) = Inr 0 \<and>
   DefaultComparator any_type (DFloat64 (Finite 2)) (DFloat64 (Finite (1 / 2))) = Inr 1 \<and>
   DefaultComparator any_type (DString ''ab'') (DString ''b'') = Inr (- 1) \<and>
   DefaultComparator any_type DOther (DInt 1) = Inr 0 \<and>
   DefaultComparator any_type DNil DOther = Inr 0"
proof -
  have n: "New int_type [WithCapacity 4, WithEquals (\<lambda>a b. a = b)] =
     Inr \<lparr>heap = \<lparr>items = [], comparator = DefaultComparator int_type\<rparr>, equals = Some (\<lambda>a b. a = b)\<rparr>"
    by (simp add: New_def heap_Init_empty word_sless_alt)
  have 1: "Comparator \<lparr>heap = \<lparr>items = [], comparator = DefaultComparator int_type\<rparr>, equals = Some (\<lambda>a b. a = b)\<rparr>
     = DefaultComparator int_type"
    using DefaultComparator_by_dynamic_type[of "[WithCapacity 4, WithEquals (\<lambda>a b. a = b)]" int_type
        "\<lparr>heap = \<lparr>items = [], comparator = DefaultComparator int_type\<rparr>, equals = Some (\<lambda>a b. a = b)\<rparr>"] n
    by simp
  have 2: "DefaultComparator int_type 3 5 = Inr (- 2)"
    using DefaultComparator_by_dynamic_type[of _ int_type _ 3 3 5 5] by (simp add: int_type_def)
  have 3: "DefaultComparator any_type (DFloat64 (Finite 1)) (DFloat64 PosInf) = Inr (- 1)"
    "DefaultComparator any_type (DFloat64 NaN) (DFloat64 (Finite 1)) = Inr 0"
    using DefaultComparator_by_dynamic_type[of _ any_type _ "DFloat64 (Finite 1)" _ "DFloat64 PosInf" _ "Finite 1" PosInf]
      DefaultComparator_by_dynamic_type[of _ any_type _ "DFloat64 NaN" _ "DFloat64 (Finite 1)" _ NaN "Finite 1"]
    by (simp_all add: any_type_def)
  have 4: "DefaultComparator any_type (DFloat64 (Finite 2)) (DFloat64 (Finite (1 / 2))) = Inr 1"
    using DefaultComparator_by_dynamic_type[of _ any_type _ "DFloat64 (Finite 2)" _ "DFloat64 (Finite (1 / 2))" _ _ _ 2 "1 / 2"]
    by (simp add: any_type_def sign_def)
  have 5: "DefaultComparator any_type (DString ''ab'') (DString ''b'') = Inr (- 1)"
    using DefaultComparator_by_dynamic_type[of _ any_type _ "DString ''ab''" _ "DString ''b''" _ _ _ _ _ "''ab''" "''b''"]
    by (simp add: any_type_def byte_less_def)
  have 6: "DefaultComparator any_type DOther (DInt 1) = Inr 0"
    "DefaultComparator any_type DNil DOther = Inr 0"
    using DefaultComparator_by_dynamic_type[of _ any_type _ DOther _ "DInt 1"]
      DefaultComparator_by_dynamic_type[of _ any_type _ DNil _ DOther]
    by (simp_all add: any_type_def)
  from 1 2 3 4 5 6 show ?thesis by simp
qed

text \<open>
  Claim C5 as the specification states it (the result is 0 for every pair of values of
  any element type other than int, float64 and string) fails for the element type
  \<^verbatim>\<open>any\<close>: the queue \<^verbatim>\<open>New[any]()\<close> has the default ordering, and this ordering
  compares the values \<^verbatim>\<open>any(1)\<close> and \<^verbatim>\<open>any(2)\<close> as ints.
\<close>

theorem DefaultComparator_any_counterexample:
  "New any_type [] = Inr \<lparr>heap = \<lparr>items = [], comparator = DefaultComparator any_type\<rparr>, equals = None\<rparr> \<and>
   DefaultComparator any_type (DInt 1) (DInt 2) = Inr (- 1) \<and>
   DefaultComparator any_type (DInt 1) (DInt 2) \<noteq> Inr 0"
  by (simp add: New_def heap_Init_empty DefaultComparator_def any_type_def)

subsection \<open>Offer\<close>

text \<open>
  Claim C6 says that \<^verbatim>\<open>Offer\<close> returns true for every queue and every item, and that the
  insertion succeeds. For an ordering function that returns and an item that is not
  the nil interface value this is lemma \<open>Offer_inserts\<close>. But \<^verbatim>\<open>Offer\<close> of the nil interface
  value, on a queue whose element type is an interface type, returns true and inserts
  nothing: the assertion \<^verbatim>\<open>x.(E)\<close> in \<^verbatim>\<open>internalHeap.Push\<close> fails for nil, and \<^verbatim>\<open>Push\<close>
  returns without appending. Here on the freshly constructed queue \<^verbatim>\<open>New[any]()\<close> and on
  a queue holding \<^verbatim>\<open>1\<close>: the queue is as before and its size has not changed.
\<close>

theorem Offer_nil_inserts_nothing:
  "New any_type [] =
     Inr \<lparr>heap = \<lparr>items = [], comparator = DefaultComparator any_type\<rparr>, equals = None\<rparr> \<and>
   Offer any_type
     \<lparr>heap = \<lparr>items = [], comparator = DefaultComparator any_type\<rparr>, equals = None\<rparr> DNil =
     (\<lparr>heap = \<lparr>items = [], comparator = DefaultComparator any_type\<rparr>, equals = None\<rparr>, True) \<and>
   Size \<lparr>heap = \<lparr>items = [], comparator = DefaultComparator any_type\<rparr>, equals = None\<rparr> = 0 \<and>
   Offer any_type
     \<lparr>heap = \<lparr>items = [DInt 1], comparator = DefaultComparator any_type\<rparr>, equals = None\<rparr> DNil =
     (\<lparr>heap = \<lparr>items = [DInt 1], comparator = DefaultComparator any_type\<rparr>, equals = None\<rparr>, True)"
  by (simp add: New_def heap_Init_empty eval_defs Size_def any_type_def)

subsection \<open>ToArray\<close>

text \<open>
  Claim C7. \<^verbatim>\<open>ToArray\<close> returns a slice whose elements are the queue's items in their
  heap order (the slice \<open>[1, 3, 8, 5]\<close> of the example is returned as it is, not
  sorted), so its length is \<^verbatim>\<open>Size()\<close>. The queue reads the same after the call. The
  returned slice is a copy: whatever value is stored into whatever cell of its array
  afterwards, the queue reads the same, and so the next \<^verbatim>\<open>Poll\<close> has the same result.
\<close>

theorem ToArray_independent_copy:
  "allocated st (items_slice q) \<and> ToArray T spare st q = (st', r) \<longrightarrow>
     view st' r = items (heap (load st q)) \<and>
     int (length (view st' r)) = Size (load st q) \<and>
     load st' q = load st q \<and>
     load (store_elem st' r i v) q = load st q \<and>
     Poll T (load (store_elem st' r i v) q) = Poll T (load st q)"
proof
  assume a: "allocated st (items_slice q) \<and> ToArray T spare st q = (st', r)"
  let ?xs = "view st (items_slice q)"
  have 1: "view st' r = ?xs \<and> view st' (items_slice q) = ?xs \<and>
     view (store_elem st' r i v) (items_slice q) = ?xs"
  proof (cases "?xs = []")
    case True
    then have "st' = st" "r = \<lparr>base = None, len = 0, cap = 0\<rparr>"
      using a by (simp_all add: ToArray_def append_to_nil_def)
    then show ?thesis using True by (simp add: view_def store_elem_def)
  next
    case False
    then obtain b where b: "base (items_slice q) = Some b" "b < next_free st"
      "len (items_slice q) \<le> length (cells st b)"
      using a by (auto simp: view_def allocated_def split: option.splits)
    have st': "st' = st\<lparr>cells := (cells st)(next_free st := ?xs @ replicate spare (zero_value T)),
               next_free := next_free st + 1\<rparr>"
      and r: "r = \<lparr>base = Some (next_free st), len = length ?xs, cap = length ?xs + spare\<rparr>"
      using a False by (simp_all add: ToArray_def append_to_nil_def)
    show ?thesis
      using b unfolding st' r by (simp add: view_def store_elem_def min_absorb2)
  qed
  then have "load st' q = load st q" "load (store_elem st' r i v) q = load st q"
    by (simp_all add: load_def)
  then show "view st' r = items (heap (load st q)) \<and>
     int (length (view st' r)) = Size (load st q) \<and>
     load st' q = load st q \<and>
     load (store_elem st' r i v) q = load st q \<and>
     Poll T (load (store_elem st' r i v) q) = Poll T (load st q)"
    using 1 by (simp add: load_def Size_def)
qed

text \<open>
  The theorem at the queue \<open>[1, 3, 8, 5]\<close> stored at address 0: the copy is made at
  address 1, and after \<open>99\<close> is stored into its first cell the queue still reads
  \<open>[1, 3, 8, 5]\<close>, while the copy reads \<open>[99, 3, 8, 5]\<close>.
\<close>

theorem ToArray_independent_copy_witness:
  "allocated \<lparr>cells = (\<lambda>a. [])(0 := [1, 3, 8, 5 :: go_int]), next_free = 1\<rparr>
     \<lparr>base = Some 0, len = 4, cap = 4\<rparr> \<and>
   ToArray int_type 0 \<lparr>cells = (\<lambda>a. [])(0 := [1, 3, 8, 5]), next_free = 1\<rparr>
     \<lparr>items_slice = \<lparr>base = Some 0, len = 4, cap = 4\<rparr>, ordering = compare_ints, equality = None\<rparr> =
     (\<lparr>cells = (\<lambda>a. [])(0 := [1, 3, 8, 5], 1 := [1, 3, 8, 5]), next_free = 2\<rparr>,
      \<lparr>base = Some 1, len = 4, cap = 4\<rparr>) \<and>
   view \<lparr>cells = (\<lambda>a. [])(0 := [1, 3, 8, 5], 1 := [1, 3, 8, 5 :: go_int]), next_free = 2\<rparr>
     \<lparr>base = Some 1, len = 4, cap = 4\<rparr> = [1, 3, 8, 5] \<and>
   view (store_elem \<lparr>cells = (\<lambda>a. [])(0 := [1, 3, 8, 5], 1 := [1, 3, 8, 5 :: go_int]), next_free = 2\<rparr>
       \<lparr>base = Some 1, len = 4, cap = 4\<rparr> 0 99)
     \<lparr>base = Some 1, len = 4, cap = 4\<rparr> = [99, 3, 8, 5] \<and>
   load (store_elem \<lparr>cells = (\<lambda>a. [])(0 := [1, 3, 8, 5], 1 := [1, 3, 8, 5]), next_free = 2\<rparr>
       \<lparr>base = Some 1, len = 4, cap = 4\<rparr> 0 99)
     \<lparr>items_slice = \<lparr>base = Some 0, len = 4, cap = 4\<rparr>, ordering = compare_ints, equality = None\<rparr> =
     \<lparr>heap = \<lparr>items = [1, 3, 8, 5], comparator = compare_ints\<rparr>, equals = None\<rparr>"
proof -
  let ?st = "\<lparr>cells = (\<lambda>a. [])(0 := [1, 3, 8, 5 :: go_int]), next_free = 1\<rparr>"
  let ?st' = "\<lparr>cells = (\<lambda>a. [])(0 := [1, 3, 8, 5], 1 := [1, 3, 8, 5 :: go_int]), next_free = 2\<rparr>"
  let ?s = "\<lparr>base = Some 0, len = 4, cap = 4\<rparr>"
  let ?r = "\<lparr>base = Some 1, len = 4, cap = 4\<rparr>"
  let ?sq = "\<lparr>items_slice = ?s, ordering = compare_ints, equality = None\<rparr>"
  have al: "allocated ?st ?s" by (simp add: allocated_def)
  have ta: "ToArray int_type 0 ?st ?sq = (?st', ?r)"
    by (simp add: ToArray_def append_to_nil_def view_def)
  have ld: "load ?st ?sq = \<lparr>heap = \<lparr>items = [1, 3, 8, 5], comparator = compare_ints\<rparr>, equals = None\<rparr>"
    by (simp add: load_def view_def)
  have "view ?st' ?r = items (heap (load ?st ?sq)) \<and>
     load (store_elem ?st' ?r 0 99) ?sq = load ?st ?sq"
    using ToArray_independent_copy[of ?st ?sq int_type 0 ?st' ?r 0 99] al ta by simp
  moreover have "view (store_elem ?st' ?r 0 99) ?r = [99, 3, 8, 5]"
    by (simp add: view_def store_elem_def)
  ultimately show ?thesis using al ta ld by simp
qed

subsection \<open>Peek\<close>

text \<open>
  Claim C8, as amended. On a non-empty queue whose ordering function is a valid strict
  weak ordering and whose slice has the heap property, \<^verbatim>\<open>Peek\<close> returns the root
  \<^verbatim>\<open>items[0]\<close>, the root is less than or equal to every element of the queue, and the
  queue is left as it was: the same elements in the same order, the same size, the
  same functions.
\<close>

theorem Peek_returns_minimum:
  "items (heap pq) \<noteq> [] \<and> valid_ordering (Comparator pq) \<and>
   heap_property (Comparator pq) (items (heap pq)) \<longrightarrow>
     Peek T pq = (pq, items (heap pq) ! 0) \<and>
     (\<forall>x \<in> set (items (heap pq)). leq (Comparator pq) (snd (Peek T pq)) x) \<and>
     items (heap (fst (Peek T pq))) = items (heap pq) \<and>
     Size (fst (Peek T pq)) = Size pq"
proof
  let ?xs = "items (heap pq)"
  let ?cmp = "Comparator pq"
  assume a: "?xs \<noteq> [] \<and> valid_ordering ?cmp \<and> heap_property ?cmp ?xs"
  then have v: "valid_ordering ?cmp" and ne: "?xs \<noteq> []" by simp_all
  have ho: "heap_order ?cmp" using v by (rule valid_ordering_heap_order)
  have hp: "heap_upto (not_after ?cmp) ?xs (int (length ?xs))"
    using a heap_property_upto[OF v, of ?xs] by simp
  have p: "Peek T pq = (pq, ?xs ! 0)" using ne by (simp add: Peek_def Len_def)
  have "leq ?cmp (?xs ! 0) x" if mem: "x \<in> set ?xs" for x
  proof -
    obtain k where k: "k < length ?xs" "x = ?xs ! k"
      using mem unfolding in_set_conv_nth by blast
    have "not_after ?cmp (?xs ! 0) (?xs ! k)"
      by (rule root_least[OF heap_order_refl[OF ho] heap_order_trans[OF ho] hp k(1)])
    then show ?thesis using valid_ordering_leq[OF v] k(2) by simp
  qed
  with p show "Peek T pq = (pq, ?xs ! 0) \<and> (\<forall>x \<in> set ?xs. leq ?cmp (snd (Peek T pq)) x) \<and>
     items (heap (fst (Peek T pq))) = ?xs \<and> Size (fst (Peek T pq)) = Size pq"
    by simp
qed

text \<open>The theorem at the heap \<open>[2, 4, 7, 9]\<close> of ints ordered by comparison.\<close>

theorem Peek_returns_minimum_witness:
  "valid_ordering compare_ints \<and> heap_property compare_ints [2, 4, 7, 9] \<and>
   Peek int_type \<lparr>heap = \<lparr>items = [2, 4, 7, 9], comparator = compare_ints\<rparr>, equals = None\<rparr> =
     (\<lparr>heap = \<lparr>items = [2, 4, 7, 9], comparator = compare_ints\<rparr>, equals = None\<rparr>, 2) \<and>
   leq compare_ints 2 9"
proof -
  let ?q = "\<lparr>heap = \<lparr>items = [2, 4, 7, 9], comparator = compare_ints\<rparr>, equals = None\<rparr>"
  have hp: "heap_property compare_ints [2, 4, 7, 9]"
    unfolding heap_property_def
    by (simp add: leq_def compare_ints_def word_sless_alt word_sle_eq nth_Cons' less_Suc_eq_0_disj)
  have "Peek int_type ?q = (?q, 2) \<and> leq compare_ints (snd (Peek int_type ?q)) 9"
    using Peek_returns_minimum[of ?q int_type] hp valid_compare_ints
    by (auto simp: Comparator_def)
  then have "Peek int_type ?q = (?q, 2)" "leq compare_ints 2 9" by auto
  then show ?thesis using hp valid_compare_ints by blast
qed

text \<open>
  Claim C8 as the specification states it, for every queue with the heap property,
  fails for the default ordering of ints, which is not a valid ordering. On the queue
  \<^verbatim>\<open>New[int]()\<close>, after \<^verbatim>\<open>Add\<close> of the minimal int, of -1 twice and of 1, the slice has the
  heap property and \<^verbatim>\<open>Peek\<close> returns the root, the minimal int. But the ordering function
  places the root after the element 1: \<^verbatim>\<open>compare(root, 1)\<close> is the maximal int, which is
  positive. The root is not the minimum per the configured ordering.
\<close>

theorem Peek_default_ordering_counterexample:
  "New int_type [] =
     Inr \<lparr>heap = \<lparr>items = [], comparator = DefaultComparator int_type\<rparr>, equals = None\<rparr> \<and>
   run int_type [OpAdd (- 9223372036854775808), OpAdd (- 1), OpAdd (- 1), OpAdd 1]
     \<lparr>heap = \<lparr>items = [], comparator = DefaultComparator int_type\<rparr>, equals = None\<rparr> =
     (\<lparr>heap = \<lparr>items = [- 9223372036854775808, - 1, - 1, 1],
              comparator = DefaultComparator int_type\<rparr>, equals = None\<rparr>,
      [Flag True, Flag True, Flag True, Flag True]) \<and>
   heap_property (DefaultComparator int_type) [- 9223372036854775808, - 1, - 1, 1] \<and>
   Peek int_type
     \<lparr>heap = \<lparr>items = [- 9223372036854775808, - 1, - 1, 1],
             comparator = DefaultComparator int_type\<rparr>, equals = None\<rparr> =
     (\<lparr>heap = \<lparr>items = [- 9223372036854775808, - 1, - 1, 1],
              comparator = DefaultComparator int_type\<rparr>, equals = None\<rparr>,
      - 9223372036854775808) \<and>
   DefaultComparator int_type (- 9223372036854775808) 1 = Inr 9223372036854775807 \<and>
   gt (DefaultComparator int_type) (- 9223372036854775808) 1 \<and>
   \<not> leq (DefaultComparator int_type) (- 9223372036854775808) 1"
proof -
  let ?c = "DefaultComparator int_type"
  have 1: "New int_type [] = Inr \<lparr>heap = \<lparr>items = [], comparator = ?c\<rparr>, equals = None\<rparr>"
    by (simp add: New_def heap_Init_empty)
  have 2: "run int_type [OpAdd (- 9223372036854775808), OpAdd (- 1), OpAdd (- 1), OpAdd 1]
     \<lparr>heap = \<lparr>items = [], comparator = ?c\<rparr>, equals = None\<rparr> =
     (\<lparr>heap = \<lparr>items = [- 9223372036854775808, - 1, - 1, 1], comparator = ?c\<rparr>, equals = None\<rparr>,
      [Flag True, Flag True, Flag True, Flag True])"
    by (simp add: eval_defs int_type_def DefaultComparator_def)
  have l: "leq ?c (- 9223372036854775808) (- 1)" "leq ?c (- 1) 1"
    by (simp_all add: leq_def DefaultComparator_def int_type_def word_sle_eq)
  have 3: "heap_property ?c [- 9223372036854775808, - 1, - 1, 1]"
    unfolding heap_property_def
  proof (intro allI impI)
    fix i :: nat
    assume "i < length [- 9223372036854775808, - 1, - 1, 1 :: go_int]"
    then consider "i = 0" | "i = 1" | "i = 2" | "i = 3" by fastforce
    then show "(2 * i + 1 < length [- 9223372036854775808, - 1, - 1, 1 :: go_int] \<longrightarrow>
        leq ?c ([- 9223372036854775808, - 1, - 1, 1] ! i)
          ([- 9223372036854775808, - 1, - 1, 1] ! (2 * i + 1))) \<and>
       (2 * i + 2 < length [- 9223372036854775808, - 1, - 1, 1 :: go_int] \<longrightarrow>
        leq ?c ([- 9223372036854775808, - 1, - 1, 1] ! i)
          ([- 9223372036854775808, - 1, - 1, 1] ! (2 * i + 2)))"
      using l by cases simp_all
  qed
  have 4: "Peek int_type
     \<lparr>heap = \<lparr>items = [- 9223372036854775808, - 1, - 1, 1], comparator = ?c\<rparr>, equals = None\<rparr> =
     (\<lparr>heap = \<lparr>items = [- 9223372036854775808, - 1, - 1, 1], comparator = ?c\<rparr>, equals = None\<rparr>,
      - 9223372036854775808)"
    by (simp add: Peek_def Len_def)
  have 5: "?c (- 9223372036854775808) 1 = Inr 9223372036854775807"
    "gt ?c (- 9223372036854775808) 1" "\<not> leq ?c (- 9223372036854775808) 1"
    by (simp_all add: gt_def leq_def DefaultComparator_def int_type_def word_sless_alt word_sle_eq)
  from 1 2 3 4 5 show ?thesis by simp
qed

subsection \<open>The size of the queue\<close>

text \<open>
  Claim C9 says that \<^verbatim>\<open>Size()\<close> is the number of successful insertions minus the number
  of successful removals and polls. For an ordering function that returns and
  insertions of values other than the nil interface value this is lemma
  \<open>size_accounting\<close>. But on the freshly constructed queue \<^verbatim>\<open>New[any]()\<close>, \<^verbatim>\<open>Add(nil)\<close> and
  \<^verbatim>\<open>Offer(nil)\<close> both return true and the size stays 0: two successful insertions, no
  element. And after \<^verbatim>\<open>Offer(1)\<close>, \<^verbatim>\<open>Offer("a")\<close> returns false (the default ordering
  panics on the two dynamic types and \<^verbatim>\<open>Offer\<close> recovers), yet the string stays
  appended: one successful insertion, size 2.
\<close>

theorem Size_is_not_the_count_of_successes:
  "New any_type [] =
     Inr \<lparr>heap = \<lparr>items = [], comparator = DefaultComparator any_type\<rparr>, equals = None\<rparr> \<and>
   run any_type [OpAdd DNil, OpOffer DNil]
     \<lparr>heap = \<lparr>items = [], comparator = DefaultComparator any_type\<rparr>, equals = None\<rparr> =
     (\<lparr>heap = \<lparr>items = [], comparator = DefaultComparator any_type\<rparr>, equals = None\<rparr>,
      [Flag True, Flag True]) \<and>
   Size \<lparr>heap = \<lparr>items = [], comparator = DefaultComparator any_type\<rparr>, equals = None\<rparr> = 0 \<and>
   run any_type [OpOffer (DInt 1), OpOffer (DString ''a'')]
     \<lparr>heap = \<lparr>items = [], comparator = DefaultComparator any_type\<rparr>, equals = None\<rparr> =
     (\<lparr>heap = \<lparr>items = [DInt 1, DString ''a''], comparator = DefaultComparator any_type\<rparr>,
        equals = None\<rparr>,
      [Flag True, Flag False]) \<and>
   Size \<lparr>heap = \<lparr>items = [DInt 1, DString ''a''], comparator = DefaultComparator any_type\<rparr>,
          equals = None\<rparr> = 2"
  by (simp add: New_def heap_Init_empty eval_defs Size_def any_type_def DefaultComparator_def)

subsection \<open>The default ordering on ints\<close>

text \<open>
  Claim C10. The default ordering compares two ints by machine subtraction, which wraps
  modulo \<open>2 ^ 64\<close>: the result is the difference of the two signed values, read back as
  a 64-bit word. For \<open>a = - 2 ^ 63\<close> and \<open>b = 1\<close> we have \<open>a < b\<close>, yet the result
  \<open>2 ^ 63 - 1\<close> is positive. The minimal int sorts before 0 and 0 before 1, but the
  minimal int does not sort before 1: the default int ordering is not transitive, hence
  not a valid strict weak ordering over the whole range of int.
\<close>

theorem DefaultComparator_int_wraps:
  "DefaultComparator int_type a b = Inr (word_of_int (sint a - sint b)) \<and>
   (- 9223372036854775808 :: go_int) <s 1 \<and>
   DefaultComparator int_type (- 9223372036854775808) 1 = Inr 9223372036854775807 \<and>
   (0 :: go_int) <s 9223372036854775807 \<and>
   lt (DefaultComparator int_type) (- 9223372036854775808) 0 \<and>
   lt (DefaultComparator int_type) 0 1 \<and>
   \<not> lt (DefaultComparator int_type) (- 9223372036854775808) 1 \<and>
   \<not> valid_ordering (DefaultComparator int_type)"
proof -
  let ?c = "DefaultComparator int_type"
  have 1: "?c a b = Inr (word_of_int (sint a - sint b))"
    by (simp add: DefaultComparator_def int_type_def)
  have 2: "(- 9223372036854775808 :: go_int) <s 1" "(0 :: go_int) <s 9223372036854775807"
    by (simp_all add: word_sless_alt)
  have 3: "?c (- 9223372036854775808) 1 = Inr 9223372036854775807"
    by (simp add: DefaultComparator_def int_type_def)
  have 4: "lt ?c (- 9223372036854775808) 0" "lt ?c 0 1" "\<not> lt ?c (- 9223372036854775808) 1"
    by (simp_all add: lt_def DefaultComparator_def int_type_def word_sless_alt)
  have "\<not> valid_ordering ?c"
    using 4 unfolding valid_ordering_def by blast
  with 1 2 3 4 show ?thesis by simp
qed

text \<open>
  The notion of a valid ordering is not empty (the comparison of ints without the
  subtraction is one), and the first part of the theorem at \<open>5\<close> and \<open>7\<close>.
\<close>

theorem DefaultComparator_int_wraps_witness:
  "valid_ordering compare_ints \<and> \<not> valid_ordering (DefaultComparator int_type) \<and>
   DefaultComparator int_type 5 7 = Inr (- 2)"
  using DefaultComparator_int_wraps[of 5 7] valid_compare_ints by simp

end
